theory Spec2Isabelle
  imports Main "HOL-Library.Word"
begin

unbundle bit_operations_syntax

section \<open>RingMPSC: machine integers and configuration\<close>

text \<open>
  The header \<^verbatim>\<open>include/ringmpsc.hpp\<close> is modelled on an LP64 target:
  \<^verbatim>\<open>std::uint64_t\<close> and \<^verbatim>\<open>std::size_t\<close> are both 64-bit unsigned words (so
  \<^verbatim>\<open>detail::narrow_cast\<close> between them is the identity), \<^verbatim>\<open>std::uint32_t\<close> is a
  32-bit word. Arithmetic on them wraps around, as in C++.
\<close>

type_synonym u64 = "64 word"
type_synonym usize = "64 word"
type_synonym u32 = "32 word"

text \<open>\<^verbatim>\<open>struct Config\<close>: the template parameter of \<^verbatim>\<open>Ring\<close> and \<^verbatim>\<open>Channel\<close>.\<close>

record config =
  ring_bits :: nat
  max_producers :: usize
  enable_metrics :: bool

definition default_config :: config where
  "default_config = \<lparr>ring_bits = 16, max_producers = 16, enable_metrics = False\<rparr>"

text \<open>\<^verbatim>\<open>CAPACITY = std::size_t{1} << config.ring_bits\<close> and \<^verbatim>\<open>MASK = CAPACITY - 1\<close>.
  The \<^verbatim>\<open>static_assert\<close> of \<^verbatim>\<open>Ring\<close> demands \<open>ring_bits < 64\<close>.\<close>

definition CAPACITY :: "config \<Rightarrow> usize" where
  "CAPACITY cfg = push_bit (ring_bits cfg) 1"

definition MASK :: "config \<Rightarrow> usize" where
  "MASK cfg = CAPACITY cfg - 1"

section \<open>Backoff\<close>

record backoff =
  step :: u32

definition SPIN_LIMIT :: u32 where "SPIN_LIMIT = 6"
definition YIELD_LIMIT :: u32 where "YIELD_LIMIT = 10"

definition Backoff :: backoff where
  "Backoff = \<lparr>step = 0\<rparr>"

text \<open>The number of \<^verbatim>\<open>cpu_relax\<close> calls of one \<^verbatim>\<open>spin()\<close>; they have no effect on
  the state.\<close>

definition spins :: "backoff \<Rightarrow> u32" where
  "spins b = push_bit (unat (min (step b) SPIN_LIMIT)) 1"

definition spin :: "backoff \<Rightarrow> backoff" where
  "spin b = (if step b \<le> SPIN_LIMIT then b\<lparr>step := step b + 1\<rparr> else b)"

definition snooze :: "backoff \<Rightarrow> backoff" where
  "snooze b =
     (if step b \<le> SPIN_LIMIT then spin b
      else if step b \<le> YIELD_LIMIT then b\<lparr>step := step b + 1\<rparr> else b)"

definition is_completed :: "backoff \<Rightarrow> bool" where
  "is_completed b \<longleftrightarrow> step b > YIELD_LIMIT"

definition reset :: "backoff \<Rightarrow> backoff" where
  "reset b = b\<lparr>step := 0\<rparr>"

text \<open>A caller's sequence of waiting calls on one Backoff.\<close>

datatype backoff_call = Spin | Snooze

fun backoff_do :: "backoff_call \<Rightarrow> backoff \<Rightarrow> backoff" where
  "backoff_do Spin b = spin b"
| "backoff_do Snooze b = snooze b"

section \<open>Metrics, spans and reservations\<close>

record metrics =
  messages_sent :: u64
  messages_received :: u64
  batches_sent :: u64
  batches_received :: u64
  reserve_spins :: u64

definition Metrics :: metrics where
  "Metrics = \<lparr>messages_sent = 0, messages_received = 0, batches_sent = 0,
     batches_received = 0, reserve_spins = 0\<rparr>"

text \<open>A \<^verbatim>\<open>std::span\<close> into a ring's buffer: the offset of its first cell from
  \<^verbatim>\<open>buffer_.data()\<close> and its number of cells.\<close>

record span =
  span_data :: usize
  span_size :: usize

record reservation =
  slice :: span
  pos :: u64

text \<open>\<^verbatim>\<open>std::ranges::copy(src, dst.begin() + i)\<close>, cell by cell.\<close>

fun copy_to :: "'a list \<Rightarrow> 'a list \<Rightarrow> nat \<Rightarrow> 'a list" where
  "copy_to [] dst i = dst"
| "copy_to (x # xs) dst i = copy_to xs (dst[i := x]) (Suc i)"

text \<open>The cells a span covers.\<close>

definition span_read :: "'a list \<Rightarrow> span \<Rightarrow> 'a list" where
  "span_read buf sp = take (unat (span_size sp)) (drop (unat (span_data sp)) buf)"

section \<open>SPSC ring\<close>

record 'a ring =
  tail :: u64
  cached_head :: u64
  head :: u64
  cached_tail :: u64
  active :: bool
  closed :: bool
  metrics :: metrics
  buffer :: "'a list"

text \<open>\<^verbatim>\<open>Ring() = default\<close>: all positions 0, both flags false. The cells of
  \<^verbatim>\<open>buffer_\<close> are not initialised by the constructor; \<open>cells\<close> is what they hold.\<close>

definition Ring :: "'a list \<Rightarrow> 'a ring" where
  "Ring cells = \<lparr>tail = 0, cached_head = 0, head = 0, cached_tail = 0, active = False,
     closed = False, metrics = Metrics, buffer = cells\<rparr>"

definition len :: "'a ring \<Rightarrow> usize" where
  "len r = tail r - head r"

definition is_empty :: "'a ring \<Rightarrow> bool" where
  "is_empty r \<longleftrightarrow> tail r = head r"

definition is_full :: "config \<Rightarrow> 'a ring \<Rightarrow> bool" where
  "is_full cfg r \<longleftrightarrow> len r \<ge> CAPACITY cfg"

definition is_closed :: "'a ring \<Rightarrow> bool" where
  "is_closed r = closed r"

definition make_reservation :: "config \<Rightarrow> u64 \<Rightarrow> usize \<Rightarrow> reservation" where
  "make_reservation cfg t n =
     (let idx = t AND MASK cfg;
          contiguous = min n (CAPACITY cfg - idx)
      in \<lparr>slice = \<lparr>span_data = idx, span_size = contiguous\<rparr>, pos = t\<rparr>)"

text \<open>\<^verbatim>\<open>reserve\<close> returns the optional reservation and the ring, whose \<^verbatim>\<open>cached_head_\<close>
  the slow path refreshes.\<close>

definition reserve :: "config \<Rightarrow> usize \<Rightarrow> 'a ring \<Rightarrow> reservation option \<times> 'a ring" where
  "reserve cfg n r =
     (if n = 0 \<or> n > CAPACITY cfg then (None, r)
      else
        let t = tail r;
            space = CAPACITY cfg - (t - cached_head r)
        in if space \<ge> n then (Some (make_reservation cfg t n), r)
           else
             let r1 = r\<lparr>cached_head := head r\<rparr>;
                 space1 = CAPACITY cfg - (t - cached_head r1)
             in if space1 < n \<or> is_closed r1 then (None, r1)
                else (Some (make_reservation cfg t n), r1))"

definition commit :: "config \<Rightarrow> usize \<Rightarrow> 'a ring \<Rightarrow> 'a ring" where
  "commit cfg n r =
     (let r1 = r\<lparr>tail := tail r + n\<rparr>
      in if enable_metrics cfg
         then r1\<lparr>metrics := (metrics r1)\<lparr>messages_sent := messages_sent (metrics r1) + n,
                                          batches_sent := batches_sent (metrics r1) + 1\<rparr>\<rparr>
         else r1)"

text \<open>\<^verbatim>\<open>reserve_with_backoff\<close>: the loop, from a Backoff \<open>b\<close>. The counter \<open>k\<close> is not
  in the source: it counts the \<^verbatim>\<open>reserve\<close> calls that have failed so far.\<close>

function reserve_with_backoff_loop ::
  "config \<Rightarrow> usize \<Rightarrow> backoff \<Rightarrow> nat \<Rightarrow> 'a ring \<Rightarrow> reservation option \<times> 'a ring \<times> nat" where
  "reserve_with_backoff_loop cfg n b k r =
     (if \<not> is_completed b then
        (case reserve cfg n r of
           (Some res, r1) \<Rightarrow> (Some res, r1, k)
         | (None, r1) \<Rightarrow>
             if is_closed r1 then (None, r1, Suc k)
             else reserve_with_backoff_loop cfg n (snooze b) (Suc k) r1)
      else (None, r, k))"
  by pat_completeness auto
termination
proof (relation "measure (\<lambda>(cfg, n, b, k, r). 11 - unat (step b))")
  show "wf (measure (\<lambda>(cfg, n, b, k, r). 11 - unat (step b)))"
    by simp
next
  fix cfg :: config and n :: usize and b :: backoff and k :: nat and r :: "'a ring"
    and x :: "reservation option \<times> 'a ring" and x1 :: "reservation option" and r1 :: "'a ring"
  assume "\<not> is_completed b"
  then have "unat (step b) \<le> 10"
    by (simp add: is_completed_def YIELD_LIMIT_def word_less_nat_alt)
  then have "unat (step (snooze b)) = unat (step b) + 1"
    by (simp add: snooze_def spin_def SPIN_LIMIT_def YIELD_LIMIT_def word_le_nat_alt
        unat_word_ariths)
  with \<open>unat (step b) \<le> 10\<close>
  show "((cfg, n, snooze b, Suc k, r1), (cfg, n, b, k, r))
          \<in> measure (\<lambda>(cfg, n, b, k, r). 11 - unat (step b))"
    by simp
qed

declare reserve_with_backoff_loop.simps [simp del]

definition reserve_with_backoff ::
  "config \<Rightarrow> usize \<Rightarrow> 'a ring \<Rightarrow> reservation option \<times> 'a ring \<times> nat" where
  "reserve_with_backoff cfg n r = reserve_with_backoff_loop cfg n Backoff 0 r"

text \<open>\<^verbatim>\<open>readable\<close>: the refresh of \<^verbatim>\<open>cached_tail_\<close> happens only when the cached
  count is 0; the count is then read again.\<close>

definition readable :: "config \<Rightarrow> 'a ring \<Rightarrow> span option \<times> 'a ring" where
  "readable cfg r =
     (let h = head r;
          r1 = (if cached_tail r - h = 0 then r\<lparr>cached_tail := tail r\<rparr> else r);
          avail = cached_tail r1 - h
      in if avail = 0 then (None, r1)
         else
           let idx = h AND MASK cfg;
               contiguous = min avail (CAPACITY cfg - idx)
           in (Some \<lparr>span_data = idx, span_size = contiguous\<rparr>, r1))"

definition advance :: "config \<Rightarrow> usize \<Rightarrow> 'a ring \<Rightarrow> 'a ring" where
  "advance cfg n r =
     (let r1 = r\<lparr>head := head r + n\<rparr>
      in if enable_metrics cfg
         then r1\<lparr>metrics := (metrics r1)\<lparr>messages_received := messages_received (metrics r1) + n,
                                          batches_received := batches_received (metrics r1) + 1\<rparr>\<rparr>
         else r1)"

text \<open>The \<^verbatim>\<open>while (pos != tail)\<close> loop of \<^verbatim>\<open>consume_batch\<close>. The handler's
  \<^verbatim>\<open>process(const T*)\<close> gets a pointer to a cell: here the cell's index and its value,
  and it updates the handler's own state \<open>hs\<close>.\<close>

function consume_loop ::
  "config \<Rightarrow> (usize \<Rightarrow> 'a \<Rightarrow> 's \<Rightarrow> 's) \<Rightarrow> 'a list \<Rightarrow> u64 \<Rightarrow> u64 \<Rightarrow> usize \<Rightarrow> 's \<Rightarrow> usize \<times> 's" where
  "consume_loop cfg process buf p t count hs =
     (if p \<noteq> t then
        let idx = p AND MASK cfg
        in consume_loop cfg process buf (p + 1) t (count + 1) (process idx (buf ! unat idx) hs)
      else (count, hs))"
  by pat_completeness auto
termination
proof (relation "measure (\<lambda>(cfg, process, buf, p, t, count, hs). unat (t - p))")
  show "wf (measure (\<lambda>(cfg, process, buf, p, t, count, hs). unat (t - p)))"
    by simp
next
  fix cfg :: config and process :: "usize \<Rightarrow> 'a \<Rightarrow> 's \<Rightarrow> 's" and buf :: "'a list"
    and p t :: u64 and count :: usize and hs :: 's and idx :: usize
  assume "p \<noteq> t"
  then have "t - p \<noteq> 0"
    by simp
  moreover from this have "0 < unat (t - p)"
    by (simp add: unat_gt_0)
  ultimately have "unat (t - p - 1) < unat (t - p)"
    by (simp add: unat_minus_one)
  moreover have "t - (p + 1) = t - p - 1"
    by simp
  ultimately have "unat (t - (p + 1)) < unat (t - p)"
    by (simp only:)
  then
  show "((cfg, process, buf, p + 1, t, count + 1, process idx (buf ! unat idx) hs),
          (cfg, process, buf, p, t, count, hs))
          \<in> measure (\<lambda>(cfg, process, buf, p, t, count, hs). unat (t - p))"
    by simp
qed

declare consume_loop.simps [simp del]

definition consume_batch ::
  "config \<Rightarrow> (usize \<Rightarrow> 'a \<Rightarrow> 's \<Rightarrow> 's) \<Rightarrow> 's \<Rightarrow> 'a ring \<Rightarrow> usize \<times> 's \<times> 'a ring" where
  "consume_batch cfg process hs r =
     (let h = head r;
          t = tail r;
          avail = t - h
      in if avail = 0 then (0, hs, r)
         else
           let (count, hs1) = consume_loop cfg process (buffer r) h t 0 hs;
               r1 = r\<lparr>head := t\<rparr>;
               r2 = (if enable_metrics cfg
                     then r1\<lparr>metrics := (metrics r1)\<lparr>
                            messages_received := messages_received (metrics r1) + count,
                            batches_received := batches_received (metrics r1) + 1\<rparr>\<rparr>
                     else r1)
           in (count, hs1, r2))"

text \<open>\<^verbatim>\<open>send\<close>: \<open>items\<close> is the caller's span, \<^verbatim>\<open>items.size()\<close> its length as a
  \<^verbatim>\<open>size_t\<close>.\<close>

definition send :: "config \<Rightarrow> 'a list \<Rightarrow> 'a ring \<Rightarrow> usize \<times> 'a ring" where
  "send cfg items r =
     (case reserve cfg (of_nat (length items)) r of
        (None, r1) \<Rightarrow> (0, r1)
      | (Some res, r1) \<Rightarrow>
          let sz = span_size (slice res);
              r2 = r1\<lparr>buffer := copy_to (take (unat sz) items) (buffer r1)
                                   (unat (span_data (slice res)))\<rparr>
          in (sz, commit cfg sz r2))"

text \<open>\<^verbatim>\<open>recv\<close>: \<open>out\<close> is the caller's buffer; the result holds the count, the buffer
  after the copy, and the ring.\<close>

definition recv :: "config \<Rightarrow> 'a list \<Rightarrow> 'a ring \<Rightarrow> usize \<times> 'a list \<times> 'a ring" where
  "recv cfg out r =
     (case readable cfg r of
        (None, r1) \<Rightarrow> (0, out, r1)
      | (Some sl, r1) \<Rightarrow>
          let n = min (span_size sl) (of_nat (length out));
              out1 = copy_to (take (unat n) (span_read (buffer r1) sl)) out 0
          in (n, out1, advance cfg n r1))"

definition close :: "'a ring \<Rightarrow> 'a ring" where
  "close r = r\<lparr>closed := True\<rparr>"

definition mark_active :: "'a ring \<Rightarrow> 'a ring" where
  "mark_active r = r\<lparr>active := True\<rparr>"

section \<open>MPSC channel\<close>

record 'a channel =
  rings :: "'a ring list"
  producer_count :: usize
  chan_closed :: bool

text \<open>\<^verbatim>\<open>Channel()\<close>: \<open>max_producers\<close> fresh rings, no producer, not closed.\<close>

definition Channel :: "config \<Rightarrow> 'a list \<Rightarrow> 'a channel" where
  "Channel cfg cells =
     \<lparr>rings = replicate (unat (max_producers cfg)) (Ring cells), producer_count = 0,
      chan_closed = False\<rparr>"

text \<open>A \<^verbatim>\<open>Producer\<close> handle: \<open>ring_ptr\<close> is the index of the ring that its pointer
  \<^verbatim>\<open>&rings_[id]\<close> refers to.\<close>

record producer =
  ring_ptr :: usize
  producer_id :: usize

datatype register_error = TooManyProducers | Closed

definition register_producer ::
  "config \<Rightarrow> 'a channel \<Rightarrow> (register_error + producer) \<times> 'a channel" where
  "register_producer cfg ch =
     (if chan_closed ch then (Inl Closed, ch)
      else
        let ident = producer_count ch;
            ch1 = ch\<lparr>producer_count := producer_count ch + 1\<rparr>
        in if ident \<ge> max_producers cfg
           then (Inl TooManyProducers, ch1\<lparr>producer_count := producer_count ch1 - 1\<rparr>)
           else (Inr \<lparr>ring_ptr = ident, producer_id = ident\<rparr>,
                 ch1\<lparr>rings := (rings ch1)[unat ident := mark_active (rings ch1 ! unat ident)]\<rparr>))"

definition producer_send ::
  "config \<Rightarrow> producer \<Rightarrow> 'a list \<Rightarrow> 'a channel \<Rightarrow> usize \<times> 'a channel" where
  "producer_send cfg p items ch =
     (let (n, rg) = send cfg items (rings ch ! unat (ring_ptr p))
      in (n, ch\<lparr>rings := (rings ch)[unat (ring_ptr p) := rg]\<rparr>))"

text \<open>The \<^verbatim>\<open>for\<close> loop of \<^verbatim>\<open>Channel::recv\<close>. \<^verbatim>\<open>out.subspan(tot)\<close> is \<open>out\<close>
  without its first \<open>tot\<close> cells (\<open>tot\<close> is the source's \<^verbatim>\<open>total\<close>). The result is the loop's state at its exit: the
  rings with an index below the final \<open>i\<close> are those whose \<^verbatim>\<open>recv\<close> was called.\<close>

function channel_recv_loop ::
  "config \<Rightarrow> usize \<Rightarrow> usize \<Rightarrow> usize \<Rightarrow> 'a list \<Rightarrow> 'a channel
     \<Rightarrow> usize \<times> usize \<times> 'a list \<times> 'a channel" where
  "channel_recv_loop cfg i count tot out ch =
     (if i < count \<and> tot < of_nat (length out) then
        let (n, sub, rg) = recv cfg (drop (unat tot) out) (rings ch ! unat i)
        in channel_recv_loop cfg (i + 1) count (tot + n) (take (unat tot) out @ sub)
             (ch\<lparr>rings := (rings ch)[unat i := rg]\<rparr>)
      else (i, tot, out, ch))"
  by pat_completeness auto
termination
proof (relation "measure (\<lambda>(cfg, i, count, tot, out, ch). unat (count - i))")
  show "wf (measure (\<lambda>(cfg, i, count, tot, out, ch). unat (count - i)))"
    by simp
next
  fix cfg :: config and i count tot :: usize and out :: "'a list" and ch :: "'a channel"
    and x :: "usize \<times> 'a list \<times> 'a ring" and n :: usize and y :: "'a list \<times> 'a ring"
    and sub :: "'a list" and rg :: "'a ring"
  assume "i < count \<and> tot < of_nat (length out)"
  then have "count - i \<noteq> 0"
    by auto
  moreover from this have "0 < unat (count - i)"
    by (simp add: unat_gt_0)
  ultimately have "unat (count - i - 1) < unat (count - i)"
    by (simp add: unat_minus_one)
  moreover have "count - (i + 1) = count - i - 1"
    by simp
  ultimately have "unat (count - (i + 1)) < unat (count - i)"
    by (simp only:)
  then
  show "((cfg, i + 1, count, tot + n, take (unat tot) out @ sub,
           ch\<lparr>rings := (rings ch)[unat i := rg]\<rparr>), (cfg, i, count, tot, out, ch))
          \<in> measure (\<lambda>(cfg, i, count, tot, out, ch). unat (count - i))"
    by simp
qed

declare channel_recv_loop.simps [simp del]

definition channel_recv :: "config \<Rightarrow> 'a list \<Rightarrow> 'a channel \<Rightarrow> usize \<times> 'a list \<times> 'a channel" where
  "channel_recv cfg out ch =
     (let (i, tot, out1, ch1) = channel_recv_loop cfg 0 (producer_count ch) 0 out ch
      in (tot, out1, ch1))"

text \<open>The rings on which one \<^verbatim>\<open>Channel::recv\<close> call invokes \<^verbatim>\<open>Ring::recv\<close>: those
  below the loop's final index.\<close>

definition channel_recv_visits :: "config \<Rightarrow> 'a list \<Rightarrow> 'a channel \<Rightarrow> usize \<Rightarrow> bool" where
  "channel_recv_visits cfg out ch j \<longleftrightarrow>
     j < fst (channel_recv_loop cfg 0 (producer_count ch) 0 out ch)"

text \<open>\<^verbatim>\<open>Channel::close\<close>: the flag, then every registered ring.\<close>

function channel_close_loop :: "usize \<Rightarrow> usize \<Rightarrow> 'a ring list \<Rightarrow> 'a ring list" where
  "channel_close_loop i count rs =
     (if i < count then channel_close_loop (i + 1) count (rs[unat i := close (rs ! unat i)])
      else rs)"
  by pat_completeness auto
termination
proof (relation "measure (\<lambda>(i, count, rs). unat (count - i))")
  show "wf (measure (\<lambda>(i, count, rs). unat (count - i)))"
    by simp
next
  fix i count :: usize and rs :: "'a ring list"
  assume "i < count"
  then have "count - i \<noteq> 0"
    by auto
  moreover from this have "0 < unat (count - i)"
    by (simp add: unat_gt_0)
  ultimately have "unat (count - i - 1) < unat (count - i)"
    by (simp add: unat_minus_one)
  moreover have "count - (i + 1) = count - i - 1"
    by simp
  ultimately have "unat (count - (i + 1)) < unat (count - i)"
    by (simp only:)
  then
  show "((i + 1, count, rs[unat i := close (rs ! unat i)]), (i, count, rs))
          \<in> measure (\<lambda>(i, count, rs). unat (count - i))"
    by simp
qed

declare channel_close_loop.simps [simp del]

definition channel_close :: "'a channel \<Rightarrow> 'a channel" where
  "channel_close ch =
     (let ch1 = ch\<lparr>chan_closed := True\<rparr>
      in ch1\<lparr>rings := channel_close_loop 0 (producer_count ch1) (rings ch1)\<rparr>)"

section \<open>Test configuration\<close>

text \<open>\<^verbatim>\<open>constexpr Config small_cfg{.ring_bits = 4}\<close> of the unit tests: 16 cells per ring.\<close>

definition small_cfg :: config where
  "small_cfg = \<lparr>ring_bits = 4, max_producers = 16, enable_metrics = False\<rparr>"

section \<open>Sequences of channel calls\<close>

text \<open>A caller's sequence of \<^verbatim>\<open>register_producer()\<close> and \<^verbatim>\<open>close()\<close> calls on one
  channel, with the results of the registrations in call order.\<close>

datatype chan_call = Register | CloseChannel

fun channel_calls ::
  "config \<Rightarrow> chan_call list \<Rightarrow> 'a channel \<Rightarrow> (register_error + producer) list \<times> 'a channel" where
  "channel_calls cfg [] ch = ([], ch)"
| "channel_calls cfg (Register # cs) ch =
     (let (res, ch1) = register_producer cfg ch;
          (rs, ch2) = channel_calls cfg cs ch1
      in (res # rs, ch2))"
| "channel_calls cfg (CloseChannel # cs) ch = channel_calls cfg cs (channel_close ch)"

text \<open>The handles among the results, in call order.\<close>

fun handles :: "(register_error + producer) list \<Rightarrow> producer list" where
  "handles [] = []"
| "handles (Inl e # rs) = handles rs"
| "handles (Inr p # rs) = p # handles rs"

section \<open>Logical positions\<close>

text \<open>The logical positions from \<open>h\<close> up to, not including, \<open>t\<close>, in the order in which
  \<^verbatim>\<open>++pos\<close> visits them (64-bit arithmetic).\<close>

definition positions :: "u64 \<Rightarrow> u64 \<Rightarrow> u64 list" where
  "positions h t = map (\<lambda>i. h + of_nat i) [0..<unat (t - h)]"

section \<open>Test scenarios\<close>

text \<open>The ring of the test "backoff on full": 16 cells, filled by 16 committed singletons.\<close>

definition full_ring :: "nat ring" where
  "full_ring =
     foldl (\<lambda>r v. snd (send small_cfg [v] r)) (Ring (replicate 16 0))
       [0, 1, 2, 3, 4, 5, 6, 7, 8, 9, 10, 11, 12, 13, 14, 15]"

text \<open>The channel of the test "channel: multi-producer": two producers register; the first
  sends 10, 11 and the second 20, 21.\<close>

definition two_producer_channel :: "nat channel" where
  "two_producer_channel =
     (let ch0 = Channel small_cfg (replicate 16 0);
          (res1, ch1) = register_producer small_cfg ch0;
          (res2, ch2) = register_producer small_cfg ch1
      in case (res1, res2) of
           (Inr p1, Inr p2) \<Rightarrow>
             snd (producer_send small_cfg p2 [20, 21]
               (snd (producer_send small_cfg p1 [10, 11] ch2)))
         | _ \<Rightarrow> ch2)"

section \<open>The sweep of Channel::recv, in the words of the specification\<close>

text \<open>
  "Iterates rings \<open>[0 .. producer_count)\<close>, invoking each ring's \<open>recv\<close> into successive
  subspans of \<open>out\<close>, stopping when \<open>out\<close> is full; returns total items written":
  \<open>recv_sweep\<close> goes through a list of rings in order, \<open>tot\<close> is the number of cells of
  \<open>out\<close> written so far, and each ring receives into \<open>out\<close> from cell \<open>tot\<close> on.
\<close>

fun recv_sweep ::
  "config \<Rightarrow> 'a ring list \<Rightarrow> nat \<Rightarrow> 'a list \<Rightarrow> nat \<times> 'a list \<times> 'a ring list" where
  "recv_sweep cfg [] tot out = (tot, out, [])"
| "recv_sweep cfg (rg # rgs) tot out =
     (if tot < length out then
        let (n, sub, rg1) = recv cfg (drop tot out) rg;
            (tot1, out1, rgs1) = recv_sweep cfg rgs (tot + unat n) (take tot out @ sub)
        in (tot1, out1, rg1 # rgs1)
      else (tot, out, rg # rgs))"

section \<open>Producer and consumer calls on one ring\<close>

text \<open>
  One producer and one consumer use a ring through the calls below, in any sequential
  interleaving. A session holds the ring, the producer's outstanding reservation, the
  consumer's most recent readable slice, and two logs that are not in the source: the
  values committed and the values consumed, both in order.
\<close>

record 'a session =
  the_ring :: "'a ring"
  pending :: "reservation option"
  view :: "span option"
  sent :: "'a list"
  received :: "'a list"

definition new_session :: "'a list \<Rightarrow> 'a session" where
  "new_session cells =
     \<lparr>the_ring = Ring cells, pending = None, view = None, sent = [], received = []\<rparr>"

text \<open>
  \<^item> \<open>Reserve n\<close>: \<^verbatim>\<open>reserve(n)\<close>, with no reservation outstanding.
  \<^item> \<open>Write i v\<close>: \<^verbatim>\<open>slice[i] = v\<close> on the outstanding reservation, \<open>i\<close> within the slice.
  \<^item> \<open>Commit\<close>: \<^verbatim>\<open>commit(slice.size())\<close> of the outstanding reservation; the values
    committed are what the cells of the slice hold.
  \<^item> \<open>SendItems items\<close>: \<^verbatim>\<open>send(items)\<close>, with no reservation outstanding.
  \<^item> \<open>Readable\<close>: \<^verbatim>\<open>readable()\<close>.
  \<^item> \<open>Advance n\<close>: the consumer reads the first \<open>n\<close> cells of its slice, then
    \<^verbatim>\<open>advance(n)\<close>; \<open>n\<close> is at most the length of the slice, and the slice is given up.
  \<^item> \<open>RecvInto out\<close>: \<^verbatim>\<open>recv(out)\<close>; the values consumed are those copied into \<open>out\<close>.
  \<^item> \<open>CloseRing\<close>: \<^verbatim>\<open>close()\<close>.
  A call that breaks its precondition has no result (\<open>None\<close>).
\<close>

datatype 'a ring_call =
    Reserve usize
  | Write usize 'a
  | Commit
  | SendItems "'a list"
  | Readable
  | Advance usize
  | RecvInto "'a list"
  | CloseRing

fun ring_step :: "config \<Rightarrow> 'a ring_call \<Rightarrow> 'a session \<Rightarrow> 'a session option" where
  "ring_step cfg (Reserve n) s =
     (case pending s of
        Some res \<Rightarrow> None
      | None \<Rightarrow>
          let (res, r1) = reserve cfg n (the_ring s)
          in Some (s\<lparr>the_ring := r1, pending := res\<rparr>))"
| "ring_step cfg (Write i v) s =
     (case pending s of
        None \<Rightarrow> None
      | Some res \<Rightarrow>
          if i < span_size (slice res)
          then Some (s\<lparr>the_ring := (the_ring s)\<lparr>buffer :=
                 (buffer (the_ring s))[unat (span_data (slice res)) + unat i := v]\<rparr>\<rparr>)
          else None)"
| "ring_step cfg Commit s =
     (case pending s of
        None \<Rightarrow> None
      | Some res \<Rightarrow>
          Some (s\<lparr>the_ring := commit cfg (span_size (slice res)) (the_ring s),
                  pending := None,
                  sent := sent s @ span_read (buffer (the_ring s)) (slice res)\<rparr>))"
| "ring_step cfg (SendItems items) s =
     (case pending s of
        Some res \<Rightarrow> None
      | None \<Rightarrow>
          let (n, r1) = send cfg items (the_ring s)
          in Some (s\<lparr>the_ring := r1, sent := sent s @ take (unat n) items\<rparr>))"
| "ring_step cfg Readable s =
     (let (sl, r1) = readable cfg (the_ring s)
      in Some (s\<lparr>the_ring := r1, view := sl\<rparr>))"
| "ring_step cfg (Advance n) s =
     (case view s of
        None \<Rightarrow> None
      | Some sl \<Rightarrow>
          if n \<le> span_size sl
          then Some (s\<lparr>the_ring := advance cfg n (the_ring s),
                       view := None,
                       received := received s @
                         take (unat n) (span_read (buffer (the_ring s)) sl)\<rparr>)
          else None)"
| "ring_step cfg (RecvInto out) s =
     (let (n, out1, r1) = recv cfg out (the_ring s)
      in Some (s\<lparr>the_ring := r1, view := None,
                 received := received s @ take (unat n) out1\<rparr>))"
| "ring_step cfg CloseRing s = Some (s\<lparr>the_ring := close (the_ring s)\<rparr>)"

fun ring_calls :: "config \<Rightarrow> 'a ring_call list \<Rightarrow> 'a session \<Rightarrow> 'a session option" where
  "ring_calls cfg [] s = Some s"
| "ring_calls cfg (c # cs) s =
     (case ring_step cfg c s of None \<Rightarrow> None | Some s1 \<Rightarrow> ring_calls cfg cs s1)"

text \<open>The cells of the logical positions from head to tail, oldest first: what the ring
  holds for the consumer.\<close>

definition contents :: "config \<Rightarrow> 'a ring \<Rightarrow> 'a list" where
  "contents cfg r =
     map (\<lambda>q. buffer r ! unat (q AND MASK cfg)) (positions (head r) (tail r))"

text \<open>What the calls above keep true of a session: the buffer has \<open>CAPACITY\<close> cells; the
  cached head is behind the head, the head behind the tail, and the three span at most
  \<open>CAPACITY\<close> positions; the cached tail is between head and tail; an outstanding
  reservation starts at the tail's cell and fits into the free cells and into the buffer;
  a readable slice starts at the head's cell and covers committed cells only; and the
  values committed are the values consumed followed by the contents of the ring.\<close>

definition session_inv :: "config \<Rightarrow> 'a session \<Rightarrow> bool" where
  "session_inv cfg s =
     (let r = the_ring s;
          cap = 2 ^ ring_bits cfg;
          e = unat (head r - cached_head r);
          d = unat (tail r - head r);
          a = unat (cached_tail r - head r)
      in ring_bits cfg < 64 \<and> length (buffer r) = cap \<and> e + d \<le> cap \<and> a \<le> d \<and>
         (case pending s of
            None \<Rightarrow> True
          | Some res \<Rightarrow>
              span_data (slice res) = tail r AND MASK cfg \<and>
              unat (span_size (slice res)) + e + d \<le> cap \<and>
              unat (span_data (slice res)) + unat (span_size (slice res)) \<le> cap) \<and>
         (case view s of
            None \<Rightarrow> True
          | Some sl \<Rightarrow>
              span_data sl = head r AND MASK cfg \<and>
              unat (span_size sl) \<le> a \<and>
              unat (span_data sl) + unat (span_size sl) \<le> cap) \<and>
         sent s = received s @ contents cfg r)"

text \<open>A ring of four cells with metrics, \<^verbatim>\<open>Config{.ring_bits = 2, .enable_metrics = true}\<close>,
  and an interleaving of producer and consumer calls on it in which the indices wrap
  around and the consumer is, at the end, one item behind the producer.\<close>

definition tiny_cfg :: config where
  "tiny_cfg = \<lparr>ring_bits = 2, max_producers = 1, enable_metrics = True\<rparr>"

definition interleaving :: "nat ring_call list" where
  "interleaving =
     [Reserve 3, Write 0 1, Write 1 2, Write 2 3, Commit, Readable, Advance 2,
      SendItems [4, 5, 6], Reserve 2, Readable, Write 0 7, Advance 1, Write 1 8, Commit,
      RecvInto [0, 0, 0, 0, 0], RecvInto [0, 0, 0, 0, 0],
      SendItems [9, 10, 11, 12], RecvInto [0], CloseRing]"

section \<open>Backoff: progression\<close>

lemma unat_step_spin:
  "unat (step (spin b)) = (if unat (step b) \<le> 6 then unat (step b) + 1 else unat (step b))"
  by (simp add: spin_def SPIN_LIMIT_def word_le_nat_alt unat_word_ariths)

lemma unat_step_snooze:
  "unat (step (snooze b)) = (if unat (step b) \<le> 10 then unat (step b) + 1 else unat (step b))"
  by (simp add: snooze_def spin_def SPIN_LIMIT_def YIELD_LIMIT_def word_le_nat_alt
      unat_word_ariths)

lemma is_completed_unat: "is_completed b \<longleftrightarrow> 10 < unat (step b)"
  by (simp add: is_completed_def YIELD_LIMIT_def word_less_nat_alt)

lemma unat_step_spins: "unat (step ((spin ^^ k) Backoff)) = min k 7"
  by (induction k) (auto simp: unat_step_spin Backoff_def)

lemma unat_step_snoozes: "unat (step ((snooze ^^ k) Backoff)) = min k 11"
  by (induction k) (auto simp: unat_step_snooze Backoff_def)

lemma is_completed_backoff_do: "is_completed b \<Longrightarrow> is_completed (backoff_do c b)"
  by (cases c) (simp_all add: is_completed_unat unat_step_spin unat_step_snooze)

lemma is_completed_fold: "is_completed b \<Longrightarrow> is_completed (fold backoff_do cs b)"
  by (induction cs arbitrary: b) (simp_all add: is_completed_backoff_do)

text \<open>
  Claim C9. A fresh Backoff is not completed. Any number of \<open>spin\<close> calls leaves it not
  completed (the step stops at \<open>SPIN_LIMIT + 1 = 7\<close>). From the fresh state, \<open>k\<close> calls of
  \<open>snooze\<close> complete it exactly when \<open>k \<ge> 11 = YIELD_LIMIT + 1\<close>. A completed Backoff
  stays completed under any further sequence of \<open>spin\<close> and \<open>snooze\<close> calls, and \<open>reset\<close>
  always gives a Backoff that is not completed.
\<close>

theorem backoff_progression:
  "\<not> is_completed Backoff \<and>
   \<not> is_completed ((spin ^^ j) Backoff) \<and>
   unat (step ((spin ^^ j) Backoff)) = min j 7 \<and>
   (is_completed ((snooze ^^ k) Backoff) \<longleftrightarrow> 11 \<le> k) \<and>
   (is_completed b \<longrightarrow> is_completed (fold backoff_do cs b)) \<and>
   \<not> is_completed (reset b)"
proof -
  have "\<not> is_completed Backoff"
    by (simp add: is_completed_unat Backoff_def)
  moreover have "\<not> is_completed ((spin ^^ j) Backoff)"
    by (simp add: is_completed_unat unat_step_spins)
  moreover have "is_completed ((snooze ^^ k) Backoff) \<longleftrightarrow> 11 \<le> k"
    by (auto simp: is_completed_unat unat_step_snoozes)
  moreover have "is_completed b \<longrightarrow> is_completed (fold backoff_do cs b)"
    by (simp add: is_completed_fold)
  moreover have "\<not> is_completed (reset b)"
    by (simp add: is_completed_unat reset_def)
  ultimately show ?thesis
    by (simp add: unat_step_spins)
qed

theorem backoff_progression_witness:
  "is_completed ((snooze ^^ 11) Backoff) \<and>
   \<not> is_completed ((snooze ^^ 10) Backoff) \<and>
   \<not> is_completed ((spin ^^ 100) Backoff) \<and>
   is_completed (fold backoff_do [Spin, Snooze, Spin] ((snooze ^^ 11) Backoff)) \<and>
   \<not> is_completed (reset ((snooze ^^ 11) Backoff))"
proof -
  have c: "is_completed ((snooze ^^ 11) Backoff)"
    using backoff_progression [of 0 11 Backoff "[]"] by simp
  have "\<not> is_completed ((snooze ^^ 10) Backoff)"
    using backoff_progression [of 0 10 Backoff "[]"] by simp
  moreover have "\<not> is_completed ((spin ^^ 100) Backoff)"
    using backoff_progression [of 100 0 Backoff "[]"] by blast
  moreover
  have "is_completed (fold backoff_do [Spin, Snooze, Spin] ((snooze ^^ 11) Backoff))"
    using backoff_progression [of 0 0 "(snooze ^^ 11) Backoff" "[Spin, Snooze, Spin]"] c
    by blast
  moreover have "\<not> is_completed (reset ((snooze ^^ 11) Backoff))"
    using backoff_progression [of 0 0 "(snooze ^^ 11) Backoff" "[]"] by blast
  ultimately show ?thesis
    using c by blast
qed

section \<open>reserve and send outside the range of \<open>n\<close>\<close>

text \<open>
  Claim C10. For \<open>n = 0\<close> or \<open>n > CAPACITY\<close>, \<open>reserve n\<close> returns none and the ring it
  returns is the ring it was given (head, tail, cached head, the closed flag and all other
  fields). Hence \<open>send\<close> of a span that is empty or longer than the capacity returns 0 and
  leaves the ring as it was: nothing is written, nothing is committed. The size of a span
  is a \<open>size_t\<close>, so its length is below \<open>2 ^ 64\<close>.
\<close>

theorem reserve_send_out_of_range:
  "(n = 0 \<or> CAPACITY cfg < n \<longrightarrow> reserve cfg n r = (None, r)) \<and>
   (length items < 2 ^ 64 \<and> (items = [] \<or> unat (CAPACITY cfg) < length items)
      \<longrightarrow> send cfg items r = (0, r))"
proof -
  have a: "reserve cfg m r = (None, r)" if "m = 0 \<or> CAPACITY cfg < m" for m
    using that by (auto simp: reserve_def)
  have "send cfg items r = (0, r)"
    if "length items < 2 ^ 64" "items = [] \<or> unat (CAPACITY cfg) < length items"
  proof -
    have "unat (of_nat (length items) :: usize) = length items"
      using that(1) by (simp add: unat_of_nat)
    with that(2)
    have "(of_nat (length items) :: usize) = 0 \<or> CAPACITY cfg < of_nat (length items)"
      by (auto simp: word_less_nat_alt)
    then show ?thesis
      by (simp add: send_def a)
  qed
  with a show ?thesis
    by blast
qed

theorem reserve_send_out_of_range_witness:
  "reserve small_cfg 0 (Ring (replicate 16 (7::nat))) = (None, Ring (replicate 16 7)) \<and>
   reserve small_cfg 17 (Ring (replicate 16 (7::nat))) = (None, Ring (replicate 16 7)) \<and>
   send small_cfg [] (Ring (replicate 16 (7::nat))) = (0, Ring (replicate 16 7)) \<and>
   send small_cfg (replicate 17 1) (Ring (replicate 16 (7::nat))) = (0, Ring (replicate 16 7))"
proof -
  have c: "CAPACITY small_cfg = 16"
    by (simp add: CAPACITY_def small_cfg_def)
  have "reserve small_cfg 0 (Ring (replicate 16 (7::nat))) = (None, Ring (replicate 16 7))"
    using reserve_send_out_of_range [of 0 small_cfg "Ring (replicate 16 (7::nat))" "[]"]
    by simp
  moreover
  have "reserve small_cfg 17 (Ring (replicate 16 (7::nat))) = (None, Ring (replicate 16 7))"
    using reserve_send_out_of_range [of 17 small_cfg "Ring (replicate 16 (7::nat))" "[]"]
    by (simp add: c)
  moreover
  have "send small_cfg [] (Ring (replicate 16 (7::nat))) = (0, Ring (replicate 16 7))"
    using reserve_send_out_of_range [of 0 small_cfg "Ring (replicate 16 (7::nat))" "[]"]
    by simp
  moreover
  have "send small_cfg (replicate 17 1) (Ring (replicate 16 (7::nat))) = (0, Ring (replicate 16 7))"
    using reserve_send_out_of_range
      [of 0 small_cfg "Ring (replicate 16 (7::nat))" "replicate 17 (1::nat)"]
    by (simp add: c)
  ultimately show ?thesis
    by blast
qed

section \<open>reserve on a closed ring\<close>

text \<open>
  Claim C1, evaluated where the code departs from it. The fast path of \<open>reserve\<close> never
  reads the closed flag: on a fresh ring that has been closed, \<open>reserve 1\<close> returns a
  reservation (cell 0, length 1, position 0). The slow path does read it: after 16 cells
  were sent, 2 received and the ring closed, the first \<open>reserve 1\<close> refreshes the cached
  head and returns none because the ring is closed, and the second, now on the fast path,
  returns a reservation on the same closed ring.
\<close>

theorem reserve_ignores_closed_on_fast_path:
  "is_closed (close (Ring (replicate 16 (0::nat)))) \<and>
   fst (reserve small_cfg 1 (close (Ring (replicate 16 (0::nat))))) =
     Some \<lparr>slice = \<lparr>span_data = 0, span_size = 1\<rparr>, pos = 0\<rparr> \<and>
   (let r0 = Ring (replicate 16 (0::nat));
        (k, r1) = send small_cfg [1, 2, 3, 4, 5, 6, 7, 8, 9, 10, 11, 12, 13, 14, 15, 16] r0;
        (n, out, r2) = recv small_cfg [0, 0] r1;
        r3 = close r2;
        (a, r4) = reserve small_cfg 1 r3;
        (b, r5) = reserve small_cfg 1 r4
    in (is_closed r3, is_closed r4, a, b)) =
     (True, True, None, Some \<lparr>slice = \<lparr>span_data = 0, span_size = 1\<rparr>, pos = 16\<rparr>)"
  by code_simp

section \<open>The position invariant across consume_batch and recv\<close>

text \<open>
  Claim C3, evaluated where the code departs from it. On a fresh ring of 16 cells:
  \<open>send\<close> of two items, then \<open>consume_batch\<close> (which handles both and stores the tail
  into the head, but leaves the cached tail at 0), then \<open>recv\<close> into a buffer of one cell.
  \<open>readable\<close> computes \<open>cached_tail - head = 0 - 2\<close>, which is not 0 in 64-bit
  arithmetic, so it does not refresh the cached tail and returns the 14 stale cells from
  index 2 on; \<open>recv\<close> copies one of them and advances the head to 3, past the tail 2.
  After that \<open>head \<le> tail\<close> is false and \<open>tail - head\<close> exceeds the capacity.
\<close>

theorem head_passes_tail_after_consume_batch:
  "(let r0 = Ring (replicate 16 (0::nat));
        (k, r1) = send small_cfg [1, 2] r0;
        (c, hs, r2) = consume_batch small_cfg (\<lambda>i v s. s @ [(i, v)]) [] r1;
        (sl, r2') = readable small_cfg r2;
        (n, out, r3) = recv small_cfg [0] r2
    in (k, c, hs, head r2 \<le> tail r2, sl, n, head r3, tail r3, head r3 \<le> tail r3,
        tail r3 - head r3 \<le> CAPACITY small_cfg)) =
     (2, 2, [(0, 1), (1, 2)], True, Some \<lparr>span_data = 2, span_size = 14\<rparr>, 1, 3, 2, False,
      False)"
  by code_simp

section \<open>Channel registration\<close>

lemma register_closed: "chan_closed ch \<Longrightarrow> register_producer cfg ch = (Inl Closed, ch)"
  by (simp add: register_producer_def)

lemma register_full:
  "\<not> chan_closed ch \<Longrightarrow> max_producers cfg \<le> producer_count ch \<Longrightarrow>
   register_producer cfg ch = (Inl TooManyProducers, ch)"
  by (simp add: register_producer_def Let_def)

lemma register_ok:
  "\<not> chan_closed ch \<Longrightarrow> producer_count ch < max_producers cfg \<Longrightarrow>
   register_producer cfg ch =
     (Inr \<lparr>ring_ptr = producer_count ch, producer_id = producer_count ch\<rparr>,
      ch\<lparr>producer_count := producer_count ch + 1,
         rings := (rings ch)[unat (producer_count ch) :=
                    mark_active (rings ch ! unat (producer_count ch))]\<rparr>)"
  by (simp add: register_producer_def Let_def not_le [symmetric])

lemma register_cases:
  "register_producer cfg ch = (Inl Closed, ch) \<or>
   register_producer cfg ch = (Inl TooManyProducers, ch) \<or>
   (\<not> chan_closed ch \<and> producer_count ch < max_producers cfg)"
  using register_closed [of ch cfg] register_full [of ch cfg]
  by (cases "chan_closed ch"; cases "max_producers cfg \<le> producer_count ch")
    (simp_all add: not_le)

lemma producer_count_channel_close: "producer_count (channel_close ch) = producer_count ch"
  by (simp add: channel_close_def Let_def)

lemma chan_closed_channel_close: "chan_closed (channel_close ch)"
  by (simp add: channel_close_def Let_def)

lemma channel_calls_closed:
  "chan_closed ch \<Longrightarrow>
   fst (channel_calls cfg cs ch) = replicate (length (filter (\<lambda>c. c = Register) cs)) (Inl Closed)"
  by (induction cfg cs ch rule: channel_calls.induct)
    (simp_all add: register_closed chan_closed_channel_close split_beta)

lemma handles_ring_ptr:
  "map ring_ptr (handles (fst (channel_calls cfg cs ch))) =
   map producer_id (handles (fst (channel_calls cfg cs ch)))"
proof (induction cfg cs ch rule: channel_calls.induct)
  case (2 cfg cs ch)
  from register_cases [of cfg ch] show ?case
  proof (elim disjE)
    assume "\<not> chan_closed ch \<and> producer_count ch < max_producers cfg"
    then show ?thesis
      using 2 register_ok [of ch cfg] by (simp add: split_beta)
  qed (use 2 in \<open>simp_all add: split_beta\<close>)
qed simp_all

lemma handles_ids:
  "producer_count ch \<le> max_producers cfg \<Longrightarrow>
   map producer_id (handles (fst (channel_calls cfg cs ch))) =
     map (\<lambda>i. producer_count ch + of_nat i) [0..<length (handles (fst (channel_calls cfg cs ch)))]
   \<and> unat (producer_count ch) + length (handles (fst (channel_calls cfg cs ch)))
       \<le> unat (max_producers cfg)"
proof (induction cfg cs ch rule: channel_calls.induct)
  case (1 cfg ch)
  then show ?case
    by (simp add: word_le_nat_alt)
next
  case (2 cfg cs ch)
  from register_cases [of cfg ch] show ?case
  proof (elim disjE)
    assume ok: "\<not> chan_closed ch \<and> producer_count ch < max_producers cfg"
    define ch1 where "ch1 = ch\<lparr>producer_count := producer_count ch + 1,
         rings := (rings ch)[unat (producer_count ch) :=
                    mark_active (rings ch ! unat (producer_count ch))]\<rparr>"
    have reg: "register_producer cfg ch =
       (Inr \<lparr>ring_ptr = producer_count ch, producer_id = producer_count ch\<rparr>, ch1)"
      using ok register_ok [of ch cfg] by (simp add: ch1_def)
    have un: "unat (producer_count ch1) = unat (producer_count ch) + 1"
      using ok unfolding ch1_def by simp unat_arith
    have le1: "producer_count ch1 \<le> max_producers cfg"
      using ok un by (simp add: word_le_nat_alt word_less_nat_alt)
    note ih = 2(1) [OF reg [symmetric] refl le1]
    let ?m = "length (handles (fst (channel_calls cfg cs ch1)))"
    have "map (\<lambda>i. producer_count ch + of_nat i) [0..<Suc ?m] =
          producer_count ch # map (\<lambda>i. producer_count ch1 + of_nat i) [0..<?m]"
      by (simp add: map_upt_Suc ch1_def del: upt_Suc)
    with ih un show ?thesis
      by (simp add: reg split_beta del: upt_Suc)
  qed (use 2 in \<open>auto simp: split_beta\<close>)
next
  case (3 cfg cs ch)
  then show ?case
    by (simp add: producer_count_channel_close)
qed

text \<open>
  Claim C5. One call of \<open>register_producer\<close>: on a closed channel (as \<open>close\<close> leaves it)
  it returns \<open>Closed\<close> and the channel is unchanged; on an open channel whose producer
  count has reached \<open>max_producers\<close> it returns \<open>TooManyProducers\<close> and the channel,
  producer count included, is unchanged; on any other channel it returns the handle whose
  id and ring are the previous producer count, the count grows by one, and no other ring
  (so no ring of an earlier handle) changes. For every sequence of \<open>register_producer\<close>
  and \<open>close\<close> calls on a fresh channel: the handles it returns have the ids
  \<open>0, 1, 2, \<dots>\<close> in call order, each bound to the ring of its id, at most
  \<open>max_producers\<close> of them; and every registration on a closed channel returns \<open>Closed\<close>.
\<close>

theorem register_producer_results:
  "(chan_closed ch \<longrightarrow> register_producer cfg ch = (Inl Closed, ch)) \<and>
   chan_closed (channel_close ch) \<and>
   (\<not> chan_closed ch \<and> max_producers cfg \<le> producer_count ch \<longrightarrow>
      register_producer cfg ch = (Inl TooManyProducers, ch)) \<and>
   (\<not> chan_closed ch \<and> producer_count ch < max_producers cfg \<longrightarrow>
      (\<exists>ch1. register_producer cfg ch =
          (Inr \<lparr>ring_ptr = producer_count ch, producer_id = producer_count ch\<rparr>, ch1) \<and>
        producer_count ch1 = producer_count ch + 1 \<and>
        chan_closed ch1 = chan_closed ch \<and>
        length (rings ch1) = length (rings ch) \<and>
        (\<forall>j. j \<noteq> unat (producer_count ch) \<longrightarrow> rings ch1 ! j = rings ch ! j))) \<and>
   (chan_closed ch \<longrightarrow>
      fst (channel_calls cfg cs ch) =
        replicate (length (filter (\<lambda>c. c = Register) cs)) (Inl Closed)) \<and>
   map producer_id (handles (fst (channel_calls cfg cs (Channel cfg cells)))) =
     map of_nat [0..<length (handles (fst (channel_calls cfg cs (Channel cfg cells))))] \<and>
   map ring_ptr (handles (fst (channel_calls cfg cs (Channel cfg cells)))) =
     map producer_id (handles (fst (channel_calls cfg cs (Channel cfg cells)))) \<and>
   length (handles (fst (channel_calls cfg cs (Channel cfg cells)))) \<le> unat (max_producers cfg)"
proof -
  have fresh: "producer_count (Channel cfg cells) \<le> max_producers cfg"
    by (simp add: Channel_def)
  have ids: "map producer_id (handles (fst (channel_calls cfg cs (Channel cfg cells)))) =
     map of_nat [0..<length (handles (fst (channel_calls cfg cs (Channel cfg cells))))]"
    and bound: "length (handles (fst (channel_calls cfg cs (Channel cfg cells))))
       \<le> unat (max_producers cfg)"
    using handles_ids [OF fresh, of cs] by (simp_all add: Channel_def)
  have ok: "\<exists>ch1. register_producer cfg ch =
          (Inr \<lparr>ring_ptr = producer_count ch, producer_id = producer_count ch\<rparr>, ch1) \<and>
        producer_count ch1 = producer_count ch + 1 \<and>
        chan_closed ch1 = chan_closed ch \<and>
        length (rings ch1) = length (rings ch) \<and>
        (\<forall>j. j \<noteq> unat (producer_count ch) \<longrightarrow> rings ch1 ! j = rings ch ! j)"
    if "\<not> chan_closed ch" "producer_count ch < max_producers cfg"
    using register_ok [OF that] by simp
  show ?thesis
    using register_closed [of ch cfg] register_full [of ch cfg] ok
      chan_closed_channel_close [of ch] channel_calls_closed [of ch cfg cs]
      ids bound handles_ring_ptr [of cfg cs "Channel cfg cells"]
    by (intro conjI impI) blast+
qed

theorem register_producer_results_witness:
  "register_producer small_cfg (channel_close (Channel small_cfg [0::nat])) =
     (Inl Closed, channel_close (Channel small_cfg [0])) \<and>
   register_producer small_cfg ((Channel small_cfg [0::nat])\<lparr>producer_count := 16\<rparr>) =
     (Inl TooManyProducers, (Channel small_cfg [0])\<lparr>producer_count := 16\<rparr>) \<and>
   fst (register_producer small_cfg ((Channel small_cfg [0::nat])\<lparr>producer_count := 15\<rparr>)) =
     Inr \<lparr>ring_ptr = 15, producer_id = 15\<rparr> \<and>
   fst (channel_calls small_cfg [Register, CloseChannel, Register]
      (channel_close (Channel small_cfg [0::nat]))) = [Inl Closed, Inl Closed]"
proof -
  have c: "chan_closed (channel_close (Channel small_cfg [0::nat]))"
    using register_producer_results [of "Channel small_cfg [0::nat]" small_cfg "[]" "[]"]
    by blast
  have "register_producer small_cfg (channel_close (Channel small_cfg [0::nat])) =
     (Inl Closed, channel_close (Channel small_cfg [0]))"
    using register_producer_results
      [of "channel_close (Channel small_cfg [0::nat])" small_cfg "[]" "[]"] c
    by blast
  moreover
  have "register_producer small_cfg ((Channel small_cfg [0::nat])\<lparr>producer_count := 16\<rparr>) =
     (Inl TooManyProducers, (Channel small_cfg [0])\<lparr>producer_count := 16\<rparr>)"
    using register_producer_results
      [of "(Channel small_cfg [0::nat])\<lparr>producer_count := 16\<rparr>" small_cfg "[]" "[]"]
    by (simp add: Channel_def small_cfg_def)
  moreover
  have "fst (register_producer small_cfg ((Channel small_cfg [0::nat])\<lparr>producer_count := 15\<rparr>)) =
     Inr \<lparr>ring_ptr = 15, producer_id = 15\<rparr>"
    using register_producer_results
      [of "(Channel small_cfg [0::nat])\<lparr>producer_count := 15\<rparr>" small_cfg "[]" "[]"]
    by (auto simp: Channel_def small_cfg_def)
  moreover
  have "fst (channel_calls small_cfg [Register, CloseChannel, Register]
      (channel_close (Channel small_cfg [0::nat]))) = [Inl Closed, Inl Closed]"
  proof -
  have "fst (channel_calls small_cfg [Register, CloseChannel, Register]
      (channel_close (Channel small_cfg [0::nat]))) =
     replicate (length (filter (\<lambda>c. c = Register) [Register, CloseChannel, Register]))
       (Inl Closed)"
    using register_producer_results
      [of "channel_close (Channel small_cfg [0::nat])" small_cfg
        "[Register, CloseChannel, Register]" "[]"] c
    by blast
  moreover
  have "replicate (length (filter (\<lambda>c. c = Register) [Register, CloseChannel, Register]))
       (Inl Closed) = [Inl Closed, Inl Closed :: register_error + producer]"
    by (simp add: numeral_2_eq_2)
  ultimately
  have "fst (channel_calls small_cfg [Register, CloseChannel, Register]
      (channel_close (Channel small_cfg [0::nat]))) = [Inl Closed, Inl Closed]"
    by (rule trans)
  then show ?thesis .
  qed
  ultimately show ?thesis
    by blast
qed

section \<open>Capacity, mask and positions\<close>

lemma unat_two_power: "n < 64 \<Longrightarrow> unat (2 ^ n :: 64 word) = 2 ^ n"
proof -
  assume n: "n < 64"
  have "(2::nat) ^ n < 2 ^ 64"
    using n by (rule power_strict_increasing) simp
  then show ?thesis
    using unat_of_nat [of "2 ^ n", where ?'a = 64] by simp
qed

lemma CAPACITY_eq: "CAPACITY cfg = 2 ^ ring_bits cfg"
  by (simp add: CAPACITY_def)

lemma unat_CAPACITY: "ring_bits cfg < 64 \<Longrightarrow> unat (CAPACITY cfg) = 2 ^ ring_bits cfg"
  unfolding CAPACITY_eq by (rule unat_two_power)

lemma MASK_eq: "MASK cfg = mask (ring_bits cfg)"
  by (simp add: MASK_def CAPACITY_eq mask_eq_exp_minus_1)

lemma unat_and_MASK: "unat (q AND MASK cfg) = unat q mod 2 ^ ring_bits cfg"
  unfolding MASK_eq take_bit_eq_mask [symmetric]
  by (metis take_bit_eq_mod unsigned_take_bit_eq)

lemma positions_same: "positions t t = []"
  by (simp add: positions_def)

lemma positions_step: "p \<noteq> t \<Longrightarrow> positions p t = p # positions (p + 1) t"
proof -
  assume "p \<noteq> t"
  then have nz: "t - p \<noteq> 0"
    by simp
  then have pos: "0 < unat (t - p)"
    by (simp add: unat_gt_0)
  have "unat (t - p - 1) = unat (t - p) - 1"
    using nz by (rule unat_minus_one)
  moreover have "t - (p + 1) = t - p - 1"
    by simp
  ultimately have m: "unat (t - (p + 1)) = unat (t - p) - 1"
    by (simp only:)
  obtain m where sm: "unat (t - p) = Suc m"
    using pos by (cases "unat (t - p)") simp_all
  have "map (\<lambda>i. p + of_nat i) [0..<Suc m] = p # map (\<lambda>i. p + 1 + of_nat i) [0..<m]"
    by (simp add: map_upt_Suc add.assoc del: upt_Suc)
  then show ?thesis
    using m sm by (simp add: positions_def)
qed

lemma length_copy_to [simp]: "length (copy_to xs dst i) = length dst"
  by (induction xs dst i rule: copy_to.induct) simp_all

lemma unat_of_nat_length:
  "k < 2 ^ 64 \<Longrightarrow> unat (of_nat k :: usize) = k"
  by (simp add: unat_of_nat)

lemma unat_succ_below: "(i :: usize) < count \<Longrightarrow> unat (i + 1) = Suc (unat i)"
  by unat_arith

lemma unat_add_no_wrap:
  "unat a + unat b < 2 ^ 64 \<Longrightarrow> unat (a + b :: 64 word) = unat a + unat b"
  using unat_add_lem [of a b] by simp

section \<open>consume_batch\<close>

lemma consume_loop_eq:
  "consume_loop cfg process buf p t count hs =
     (count + (t - p),
      foldl (\<lambda>s q. process (q AND MASK cfg) (buf ! unat (q AND MASK cfg)) s) hs (positions p t))"
proof (induction cfg process buf p t count hs rule: consume_loop.induct)
  case (1 cfg process buf p t count hs)
  show ?case
  proof (cases "p = t")
    case True
    then show ?thesis
      by (simp add: positions_same consume_loop.simps [of cfg process buf t t])
  next
    case False
    then show ?thesis
      using 1 [OF False refl] positions_step [OF False]
      by (simp add: consume_loop.simps [of cfg process buf p t] Let_def)
  qed
qed

lemma consume_batch_eq:
  "consume_batch cfg process hs r = (c, hs1, r1) \<Longrightarrow>
   c = tail r - head r \<and>
   hs1 = foldl (\<lambda>s q. process (q AND MASK cfg) (buffer r ! unat (q AND MASK cfg)) s) hs
          (positions (head r) (tail r)) \<and>
   head r1 = tail r \<and> tail r1 = tail r \<and> buffer r1 = buffer r \<and> is_empty r1"
  by (auto simp: consume_batch_def Let_def consume_loop_eq positions_same is_empty_def
      split: if_splits)

lemma foldl_record_calls:
  "foldl (\<lambda>s q. s @ [f q]) tr qs = tr @ map f qs"
  by (induction qs arbitrary: tr) simp_all

text \<open>
  Claim C4. For every ring, \<open>consume_batch\<close> returns the count \<open>tail - head\<close>; the handler
  state it returns is the one obtained by calling \<open>process\<close> once for each logical position
  from \<open>head\<close> up to \<open>tail\<close>, in increasing order, on the cell with index
  \<open>position AND MASK\<close>, which is \<open>position mod capacity\<close> (the third conjunct shows the
  calls themselves, recorded by a handler that appends its argument to a list);
  afterwards the head is the old tail, tail and buffer are unchanged, and \<open>is_empty\<close> holds.
\<close>

theorem consume_batch_drains:
  "fst (consume_batch cfg process hs r) = tail r - head r \<and>
   fst (snd (consume_batch cfg process hs r)) =
     foldl (\<lambda>s q. process (q AND MASK cfg) (buffer r ! unat (q AND MASK cfg)) s) hs
       (positions (head r) (tail r)) \<and>
   fst (snd (consume_batch cfg (\<lambda>i v tr. tr @ [(i, v)]) [] r)) =
     map (\<lambda>q. (q AND MASK cfg, buffer r ! unat (q AND MASK cfg)))
       (positions (head r) (tail r)) \<and>
   length (positions (head r) (tail r)) = unat (tail r - head r) \<and>
   unat (q AND MASK cfg) = unat q mod 2 ^ ring_bits cfg \<and>
   head (snd (snd (consume_batch cfg process hs r))) = tail r \<and>
   tail (snd (snd (consume_batch cfg process hs r))) = tail r \<and>
   buffer (snd (snd (consume_batch cfg process hs r))) = buffer r \<and>
   is_empty (snd (snd (consume_batch cfg process hs r)))"
proof -
  obtain c hs1 r1 where e: "consume_batch cfg process hs r = (c, hs1, r1)"
    by (cases "consume_batch cfg process hs r") auto
  obtain c' tr r1' where e': "consume_batch cfg (\<lambda>i v tr. tr @ [(i, v)]) [] r = (c', tr, r1')"
    by (cases "consume_batch cfg (\<lambda>i v tr. tr @ [(i, v)]) [] r") auto
  have "tr = map (\<lambda>q. (q AND MASK cfg, buffer r ! unat (q AND MASK cfg)))
       (positions (head r) (tail r))"
    using consume_batch_eq [OF e']
      foldl_record_calls [of "\<lambda>q. (q AND MASK cfg, buffer r ! unat (q AND MASK cfg))" "[]"]
    by simp
  moreover have "length (positions (head r) (tail r)) = unat (tail r - head r)"
    by (simp add: positions_def)
  ultimately show ?thesis
    using consume_batch_eq [OF e] unat_and_MASK [of q cfg] by (simp add: e e')
qed

section \<open>reserve_with_backoff\<close>

lemma reserve_closed_same: "is_closed (snd (reserve cfg n r)) = is_closed r"
  by (simp add: reserve_def Let_def is_closed_def)

lemma reserve_fail_idem:
  "reserve cfg n r = (None, r1) \<Longrightarrow> \<not> is_closed r1 \<Longrightarrow> reserve cfg n r1 = (None, r1)"
  by (auto simp: reserve_def Let_def is_closed_def split: if_splits)

lemma not_completed_step: "\<not> is_completed b \<Longrightarrow> unat (step b) \<le> 10"
  by (simp add: is_completed_unat)

lemma not_completed_snooze: "\<not> is_completed b \<Longrightarrow> unat (step (snooze b)) = unat (step b) + 1"
  by (simp add: is_completed_unat unat_step_snooze)

lemma loop_Some:
  "\<not> is_completed b \<Longrightarrow> reserve cfg n r = (Some res, r1) \<Longrightarrow>
   reserve_with_backoff_loop cfg n b k r = (Some res, r1, k)"
  by (simp add: reserve_with_backoff_loop.simps [of cfg n b k r])

lemma loop_fails:
  "reserve cfg n r = (None, r1) \<Longrightarrow> unat (step b) \<le> 11 \<Longrightarrow>
   reserve_with_backoff_loop cfg n b k r =
     (None, if is_completed b then r else r1,
      if is_completed b then k else if is_closed r then Suc k else k + (11 - unat (step b)))"
proof (induction cfg n b k r rule: reserve_with_backoff_loop.induct)
  case (1 cfg n b k r)
  show ?case
  proof (cases "is_completed b")
    case True
    then show ?thesis
      by (simp add: reserve_with_backoff_loop.simps [of cfg n b k r])
  next
    case nc: False
    show ?thesis
    proof (cases "is_closed r1")
      case True
      then show ?thesis
        using nc 1(2) reserve_closed_same [of cfg n r]
        by (simp add: reserve_with_backoff_loop.simps [of cfg n b k r])
    next
      case False
      have idem: "reserve cfg n r1 = (None, r1)"
        using 1(2) False by (rule reserve_fail_idem)
      have st: "unat (step (snooze b)) = unat (step b) + 1" "unat (step b) \<le> 10"
        using nc by (simp_all add: not_completed_snooze not_completed_step)
      have cl: "\<not> is_closed r"
        using False 1(2) reserve_closed_same [of cfg n r] by simp
      have ih: "reserve_with_backoff_loop cfg n (snooze b) (Suc k) r1 =
        (None, if is_completed (snooze b) then r1 else r1,
         if is_completed (snooze b) then Suc k else if is_closed r1 then Suc (Suc k)
         else Suc k + (11 - unat (step (snooze b))))"
        using 1(1) [OF nc 1(2) [symmetric] refl False idem] st by simp
      have "is_completed (snooze b) \<longleftrightarrow> unat (step b) = 10"
        using st by (auto simp: is_completed_unat)
      then show ?thesis
        using nc 1(2) False cl ih st
        by (auto simp: reserve_with_backoff_loop.simps [of cfg n b k r])
    qed
  qed
qed

text \<open>
  Claim C8. \<open>reserve_with_backoff\<close> is a total function: its loop ends on every ring and
  every \<open>n\<close>. If \<open>reserve n\<close> fails on the ring, it fails again on the ring it leaves
  behind (nothing else touches the ring), and \<open>reserve_with_backoff n\<close> returns none after
  exactly 11 failed attempts on an open ring and after 1 on a closed ring, so after at
  most \<open>YIELD_LIMIT + 1 = 11\<close>. If \<open>reserve n\<close> succeeds, \<open>reserve_with_backoff n\<close> returns
  that reservation with no failed attempt; the same holds for the attempt made at any
  uncompleted Backoff inside the loop.
\<close>

theorem reserve_with_backoff_bounded:
  "(fst (reserve cfg n r) = None \<longrightarrow>
      reserve_with_backoff cfg n r =
        (None, snd (reserve cfg n r), if is_closed r then 1 else 11)) \<and>
   (fst (reserve cfg n r) = None \<and> \<not> is_closed r \<longrightarrow>
      reserve cfg n (snd (reserve cfg n r)) = (None, snd (reserve cfg n r))) \<and>
   (fst (reserve cfg n r) \<noteq> None \<longrightarrow>
      reserve_with_backoff cfg n r = (fst (reserve cfg n r), snd (reserve cfg n r), 0)) \<and>
   snd (snd (reserve_with_backoff cfg n r)) \<le> 11 \<and>
   (\<not> is_completed b \<and> fst (reserve cfg n r) \<noteq> None \<longrightarrow>
      reserve_with_backoff_loop cfg n b k r =
        (fst (reserve cfg n r), snd (reserve cfg n r), k))"
proof -
  obtain res r1 where e: "reserve cfg n r = (res, r1)"
    by (cases "reserve cfg n r") auto
  have fresh: "\<not> is_completed Backoff" "unat (step Backoff) = 0"
    by (simp_all add: is_completed_unat Backoff_def)
  have fail: "reserve_with_backoff cfg n r = (None, r1, if is_closed r then 1 else 11)"
    if "res = None"
    using loop_fails [of cfg n r r1 Backoff 0] e that fresh
    by (simp add: reserve_with_backoff_def)
  have idem: "reserve cfg n r1 = (None, r1)" if "res = None" "\<not> is_closed r"
    using reserve_fail_idem [of cfg n r r1] e that reserve_closed_same [of cfg n r] by simp
  have ok: "reserve_with_backoff_loop cfg n b' k' r = (res, r1, k')"
    if "res \<noteq> None" "\<not> is_completed b'" for b' k'
    using loop_Some [of b' cfg n r _ r1 k'] e that by auto
  have "snd (snd (reserve_with_backoff cfg n r)) \<le> 11"
  proof (cases res)
    case None
    then show ?thesis
      using fail by simp
  next
    case (Some a)
    then show ?thesis
      using ok [of Backoff 0] fresh by (simp add: reserve_with_backoff_def)
  qed
  then show ?thesis
    using fail idem ok [of Backoff 0] ok [of b k] fresh
    by (simp add: e reserve_with_backoff_def)
qed

theorem reserve_with_backoff_bounded_witness:
  "fst (reserve small_cfg 1 full_ring) = None \<and>
   \<not> is_closed full_ring \<and>
   fst (reserve_with_backoff small_cfg 1 full_ring) = None \<and>
   snd (snd (reserve_with_backoff small_cfg 1 full_ring)) = 11 \<and>
   fst (reserve_with_backoff small_cfg 1 (close full_ring)) = None \<and>
   snd (snd (reserve_with_backoff small_cfg 1 (close full_ring))) = 1 \<and>
   fst (reserve_with_backoff small_cfg 1 (Ring (replicate 16 (0::nat)))) =
     Some \<lparr>slice = \<lparr>span_data = 0, span_size = 1\<rparr>, pos = 0\<rparr>"
proof -
  have f: "fst (reserve small_cfg 1 full_ring) = None"
    by code_simp
  have o: "\<not> is_closed full_ring"
    by code_simp
  have fc: "fst (reserve small_cfg 1 (close full_ring)) = None"
    by code_simp
  have c: "is_closed (close full_ring)"
    by (simp add: is_closed_def close_def)
  have s: "fst (reserve small_cfg 1 (Ring (replicate 16 (0::nat)))) =
     Some \<lparr>slice = \<lparr>span_data = 0, span_size = 1\<rparr>, pos = 0\<rparr>"
    by code_simp
  have "reserve_with_backoff small_cfg 1 full_ring =
     (None, snd (reserve small_cfg 1 full_ring), 11)"
    using reserve_with_backoff_bounded [of small_cfg 1 full_ring Backoff 0] f o by simp
  moreover have "reserve_with_backoff small_cfg 1 (close full_ring) =
     (None, snd (reserve small_cfg 1 (close full_ring)), 1)"
    using reserve_with_backoff_bounded [of small_cfg 1 "close full_ring" Backoff 0] fc c
    by simp
  moreover have "fst (reserve_with_backoff small_cfg 1 (Ring (replicate 16 (0::nat)))) =
     Some \<lparr>slice = \<lparr>span_data = 0, span_size = 1\<rparr>, pos = 0\<rparr>"
    using reserve_with_backoff_bounded
      [of small_cfg 1 "Ring (replicate 16 (0::nat))" Backoff 0] s
    by simp
  ultimately show ?thesis
    using f o by simp
qed

section \<open>Channel::recv\<close>

lemma recv_length: "recv cfg out r = (n, out1, r1) \<Longrightarrow> length out1 = length out"
  by (auto simp: recv_def Let_def split: prod.splits option.splits)

lemma recv_count: "recv cfg out r = (n, out1, r1) \<Longrightarrow> n \<le> of_nat (length out)"
  by (auto simp: recv_def Let_def split: prod.splits option.splits)

lemma recv_count_nat:
  assumes "recv cfg out r = (n, out1, r1)" "length out < 2 ^ 64"
  shows "unat n \<le> length out"
  using recv_count [OF assms(1)] unat_of_nat_length [OF assms(2)]
  by (simp add: word_le_nat_alt)

lemma channel_recv_loop_sweep:
  "length out < 2 ^ 64 \<Longrightarrow> unat count \<le> length (rings ch) \<Longrightarrow> i \<le> count \<Longrightarrow>
   unat tot \<le> length out \<Longrightarrow>
   snd (channel_recv_loop cfg i count tot out ch) =
     (case recv_sweep cfg (take (unat count - unat i) (drop (unat i) (rings ch))) (unat tot) out of
        (tot1, out1, rs1) \<Rightarrow>
          (of_nat tot1, out1,
           ch\<lparr>rings := take (unat i) (rings ch) @ rs1 @ drop (unat count) (rings ch)\<rparr>))"
proof (induction cfg i count tot out ch rule: channel_recv_loop.induct)
  case (1 cfg i count tot out ch)
  let ?rs = "rings ch"
  let ?I = "unat i"
  let ?C = "unat count"
  have lo: "unat (of_nat (length out) :: usize) = length out"
    using 1(2) by (rule unat_of_nat_length)
  show ?case
  proof (cases "i < count \<and> tot < of_nat (length out)")
    case False
    have rest: "take ?I ?rs @ take (?C - ?I) (drop ?I ?rs) @ drop ?C ?rs = ?rs"
      using 1(4) by (simp add: word_le_nat_alt take_add [symmetric] flip: append_assoc)
    show ?thesis
    proof (cases "i < count")
      case True
      with False have full: "\<not> unat tot < length out"
        using lo by (simp add: word_less_nat_alt)
      have ne: "take (?C - ?I) (drop ?I ?rs) \<noteq> []"
        using True 1(3) by (simp add: word_less_nat_alt)
      then obtain rg rgs where c: "take (?C - ?I) (drop ?I ?rs) = rg # rgs"
        by (cases "take (?C - ?I) (drop ?I ?rs)") auto
      show ?thesis
        using False True full rest
        by (simp add: channel_recv_loop.simps [of cfg i count tot out ch] c)
    next
      case ge: False
      with 1(4) have "i = count" by simp
      then show ?thesis
        by (simp add: channel_recv_loop.simps [of cfg count count tot out ch])
    qed
  next
    case True
    then have lt: "?I < ?C" and room: "unat tot < length out"
      using lo by (simp_all add: word_less_nat_alt)
    obtain n sub rg1 where rc: "recv cfg (drop (unat tot) out) (?rs ! ?I) = (n, sub, rg1)"
      by (cases "recv cfg (drop (unat tot) out) (?rs ! ?I)") auto
    have lsub: "length sub = length out - unat tot"
      using recv_length [OF rc] by simp
    have nle: "unat n \<le> length out - unat tot"
      using recv_count_nat [OF rc] 1(2) by simp
    have i1: "unat (i + 1) = Suc ?I"
      using True unat_succ_below [of i count] by blast
    have tn: "unat (tot + n) = unat tot + unat n"
      using nle room 1(2) by (intro unat_add_no_wrap) simp
    let ?out1 = "take (unat tot) out @ sub"
    let ?ch1 = "ch\<lparr>rings := ?rs[?I := rg1]\<rparr>"
    have ih: "snd (channel_recv_loop cfg (i + 1) count (tot + n) ?out1 ?ch1) =
      (case recv_sweep cfg (take (?C - Suc ?I) (drop (Suc ?I) ?rs)) (unat tot + unat n) ?out1 of
        (tot1, out1, rs1) \<Rightarrow>
          (of_nat tot1, out1,
           ch\<lparr>rings := take ?I ?rs @ rg1 # rs1 @ drop ?C ?rs\<rparr>))"
    proof -
      have a: "length ?out1 < 2 ^ 64"
        using lsub room 1(2) by simp
      have b: "unat count \<le> length (rings ?ch1)"
        using 1(3) by simp
      have c: "i + 1 \<le> count"
        using True i1 by (simp add: word_le_nat_alt word_less_nat_alt)
      have d: "unat (tot + n) \<le> length ?out1"
        using tn nle lsub room by simp
      have t: "take (Suc ?I) (?rs[?I := rg1]) = take ?I ?rs @ [rg1]"
        using lt 1(3) by (simp add: take_Suc_conv_app_nth)
      show ?thesis
        using 1(1) [OF True rc [symmetric] refl refl a b c d] lt 1(3)
        by (simp add: i1 tn t)
    qed
    have c: "take (?C - ?I) (drop ?I ?rs) = ?rs ! ?I # take (?C - Suc ?I) (drop (Suc ?I) ?rs)"
    proof -
      have "drop ?I ?rs = ?rs ! ?I # drop (Suc ?I) ?rs"
        using lt 1(3) by (simp add: Cons_nth_drop_Suc)
      moreover have "?C - ?I = Suc (?C - Suc ?I)"
        using lt by simp
      ultimately show ?thesis
        by (simp only: take_Suc_Cons)
    qed
    show ?thesis
      using True ih room
      by (simp add: channel_recv_loop.simps [of cfg i count tot out ch] rc c split_beta)
  qed
qed


lemma channel_recv_loop_stop:
  "\<not> (i < count \<and> tot < of_nat (length out)) \<Longrightarrow>
   channel_recv_loop cfg i count tot out ch = (i, tot, out, ch)"
  by (subst channel_recv_loop.simps) (simp only: if_False)

lemma channel_recv_loop_step:
  "i < count \<Longrightarrow> tot < of_nat (length out) \<Longrightarrow>
   recv cfg (drop (unat tot) out) (rings ch ! unat i) = (n, sub, rg) \<Longrightarrow>
   channel_recv_loop cfg i count tot out ch =
     channel_recv_loop cfg (i + 1) count (tot + n) (take (unat tot) out @ sub)
       (ch\<lparr>rings := (rings ch)[unat i := rg]\<rparr>)"
  by (subst channel_recv_loop.simps) simp

lemma recv_into_subspan:
  assumes "length out < 2 ^ 64" "unat tot < length out"
    and "recv cfg (drop (unat tot) out) rg = (n, sub, rg1)"
  shows "length (take (unat tot) out @ sub) = length out"
    and "unat (tot + n) = unat tot + unat n"
    and "unat (tot + n) \<le> length out"
proof -
  have lsub: "length sub = length out - unat tot"
    using recv_length [OF assms(3)] by simp
  have nle: "unat n \<le> length out - unat tot"
    using recv_count_nat [OF assms(3)] assms(1) by simp
  show "length (take (unat tot) out @ sub) = length out"
    using lsub assms(2) by simp
  show "unat (tot + n) = unat tot + unat n"
    using nle assms(1,2) by (intro unat_add_no_wrap) simp
  then show "unat (tot + n) \<le> length out"
    using nle assms(2) by simp
qed

lemma channel_recv_loop_exit:
  "length out < 2 ^ 64 \<Longrightarrow> i \<le> count \<Longrightarrow> unat tot \<le> length out \<Longrightarrow>
   channel_recv_loop cfg i count tot out ch = (i1, tot1, out1, ch1) \<Longrightarrow>
   i \<le> i1 \<and> i1 \<le> count \<and> length out1 = length out \<and> unat tot1 \<le> length out \<and>
   (i1 = count \<or> unat tot1 = length out)"
proof (induction cfg i count tot out ch rule: channel_recv_loop.induct)
  case (1 cfg i count tot out ch)
  have lo: "unat (of_nat (length out) :: usize) = length out"
    using 1(2) by (rule unat_of_nat_length)
  show ?case
  proof (cases "i < count \<and> tot < of_nat (length out)")
    case False
    then have e: "i1 = i" "tot1 = tot" "out1 = out"
      using 1(5) channel_recv_loop_stop [OF False, of cfg ch] by simp_all
    have "i = count \<or> unat tot = length out"
      using False 1(3,4) lo by (auto simp: word_less_nat_alt word_le_nat_alt word_unat_eq_iff)
    then show ?thesis
      using e 1(3,4) by simp
  next
    case True
    then have room: "unat tot < length out"
      using lo by (simp add: word_less_nat_alt)
    obtain n sub rg1 where
      rc: "recv cfg (drop (unat tot) out) (rings ch ! unat i) = (n, sub, rg1)"
      by (cases "recv cfg (drop (unat tot) out) (rings ch ! unat i)") auto
    note sp = recv_into_subspan [OF 1(2) room rc]
    have a: "length (take (unat tot) out @ sub) < 2 ^ 64"
      using sp(1) 1(2) by simp
    have c: "i + 1 \<le> count" and ii: "i \<le> i + 1"
      using True unat_succ_below [of i count]
      by (simp_all add: word_le_nat_alt word_less_nat_alt)
    have d: "unat (tot + n) \<le> length (take (unat tot) out @ sub)"
      using sp by simp
    have e: "channel_recv_loop cfg (i + 1) count (tot + n) (take (unat tot) out @ sub)
        (ch\<lparr>rings := (rings ch)[unat i := rg1]\<rparr>) = (i1, tot1, out1, ch1)"
      using 1(5) True channel_recv_loop_step [OF _ _ rc, of count] by simp
    show ?thesis
      using 1(1) [OF True rc [symmetric] refl refl a c d e] sp(1) ii by auto
  qed
qed

lemma channel_recv_loop_continues:
  assumes "length out < 2 ^ 64" "unat tot \<le> length out"
    and "i < count" "tot < of_nat (length out)" "i + 1 < count"
    and "tot + fst (recv cfg (drop (unat tot) out) (rings ch ! unat i)) < of_nat (length out)"
  shows "i + 1 < fst (channel_recv_loop cfg i count tot out ch)"
proof -
  have lo: "unat (of_nat (length out) :: usize) = length out"
    using assms(1) by (rule unat_of_nat_length)
  have room: "unat tot < length out"
    using assms(4) lo by (simp add: word_less_nat_alt)
  obtain n sub rg1 where
    rc: "recv cfg (drop (unat tot) out) (rings ch ! unat i) = (n, sub, rg1)"
    by (cases "recv cfg (drop (unat tot) out) (rings ch ! unat i)") auto
  define out1 where "out1 = take (unat tot) out @ sub"
  define ch1 where "ch1 = ch\<lparr>rings := (rings ch)[unat i := rg1]\<rparr>"
  note sp = recv_into_subspan [OF assms(1) room rc, folded out1_def]
  have s1: "channel_recv_loop cfg i count tot out ch =
      channel_recv_loop cfg (i + 1) count (tot + n) out1 ch1"
    unfolding out1_def ch1_def using assms(3,4) rc by (rule channel_recv_loop_step)
  have room1: "tot + n < of_nat (length out1)"
    using assms(6) rc sp(1) by simp
  then have room1n: "unat (tot + n) < length out1"
    using lo sp(1) by (simp add: word_less_nat_alt)
  have l1: "length out1 < 2 ^ 64"
    using sp(1) assms(1) by simp
  obtain n2 sub2 rg2 where
    rc2: "recv cfg (drop (unat (tot + n)) out1) (rings ch1 ! unat (i + 1)) = (n2, sub2, rg2)"
    by (cases "recv cfg (drop (unat (tot + n)) out1) (rings ch1 ! unat (i + 1))") auto
  define out2 where "out2 = take (unat (tot + n)) out1 @ sub2"
  define ch2 where "ch2 = ch1\<lparr>rings := (rings ch1)[unat (i + 1) := rg2]\<rparr>"
  note sp2 = recv_into_subspan [OF l1 room1n rc2, folded out2_def]
  have s2: "channel_recv_loop cfg (i + 1) count (tot + n) out1 ch1 =
      channel_recv_loop cfg (i + 1 + 1) count (tot + n + n2) out2 ch2"
    unfolding out2_def ch2_def using assms(5) room1 rc2 by (rule channel_recv_loop_step)
  have c2: "i + 1 + 1 \<le> count" and lt2: "i + 1 < i + 1 + 1"
    using assms(5) unat_succ_below [of "i + 1" count]
    by (simp_all add: word_le_nat_alt word_less_nat_alt)
  obtain i1 tot1 out3 ch3 where
    e: "channel_recv_loop cfg (i + 1 + 1) count (tot + n + n2) out2 ch2 = (i1, tot1, out3, ch3)"
    by (cases "channel_recv_loop cfg (i + 1 + 1) count (tot + n + n2) out2 ch2") auto
  have "length out2 < 2 ^ 64" "unat (tot + n + n2) \<le> length out2"
    using sp2 l1 by simp_all
  then have "i + 1 + 1 \<le> i1"
    using channel_recv_loop_exit [OF _ c2 _ e] by simp
  then show ?thesis
    using lt2 by (simp only: s1 s2 e fst_conv)
qed


text \<open>
  Claim C6. For an output span (its size is a \<open>size_t\<close>) and a channel whose producer
  count does not exceed its number of rings, \<open>Channel::recv\<close> computes what the sweep in
  the words of the specification computes on the first \<open>producer_count\<close> rings: the rings
  are taken in index order, each receives into \<open>out\<close> from the first cell not yet
  written, the sweep ends early only when no cell of \<open>out\<close> is left, the result is the
  number of cells written, and the rings from \<open>producer_count\<close> on are untouched. In the
  test scenario (producer 0 sent 10, 11 and producer 1 sent 20, 21), \<open>recv\<close> into a buffer
  of 10 cells returns 4 and the buffer begins 10, 11, 20, 21.
\<close>

theorem channel_recv_sweeps_in_order:
  "(length out < 2 ^ 64 \<and> unat (producer_count ch) \<le> length (rings ch) \<longrightarrow>
      channel_recv cfg out ch =
        (case recv_sweep cfg (take (unat (producer_count ch)) (rings ch)) 0 out of
           (tot1, out1, rs1) \<Rightarrow>
             (of_nat tot1, out1,
              ch\<lparr>rings := rs1 @ drop (unat (producer_count ch)) (rings ch)\<rparr>))) \<and>
   fst (channel_recv small_cfg (replicate 10 0) two_producer_channel) = 4 \<and>
   take 4 (fst (snd (channel_recv small_cfg (replicate 10 0) two_producer_channel))) =
     [10, 11, 20, 21]"
proof -
  have "channel_recv cfg out ch =
        (case recv_sweep cfg (take (unat (producer_count ch)) (rings ch)) 0 out of
           (tot1, out1, rs1) \<Rightarrow>
             (of_nat tot1, out1,
              ch\<lparr>rings := rs1 @ drop (unat (producer_count ch)) (rings ch)\<rparr>))"
    if "length out < 2 ^ 64" "unat (producer_count ch) \<le> length (rings ch)"
    using channel_recv_loop_sweep [OF that, of 0 0 cfg]
    by (simp add: channel_recv_def split_beta)
  moreover have "fst (channel_recv small_cfg (replicate 10 0) two_producer_channel) = 4"
    by code_simp
  moreover
  have "take 4 (fst (snd (channel_recv small_cfg (replicate 10 0) two_producer_channel))) =
     [10, 11, 20, 21]"
    by code_simp
  ultimately show ?thesis
    by blast
qed

theorem channel_recv_sweeps_in_order_witness:
  "length (replicate 10 (0::nat)) < 2 ^ 64 \<and>
   unat (producer_count two_producer_channel) \<le> length (rings two_producer_channel) \<and>
   fst (recv_sweep small_cfg (take (unat (producer_count two_producer_channel))
          (rings two_producer_channel)) 0 (replicate 10 0)) = 4 \<and>
   fst (channel_recv small_cfg (replicate 10 0) two_producer_channel) = of_nat 4"
proof -
  have l: "length (replicate 10 (0::nat)) < 2 ^ 64"
    by simp
  have w: "unat (producer_count two_producer_channel) \<le> length (rings two_producer_channel)"
    by code_simp
  have s: "fst (recv_sweep small_cfg (take (unat (producer_count two_producer_channel))
          (rings two_producer_channel)) 0 (replicate 10 0)) = 4"
    by code_simp
  have "channel_recv small_cfg (replicate 10 0) two_producer_channel =
        (case recv_sweep small_cfg (take (unat (producer_count two_producer_channel))
            (rings two_producer_channel)) 0 (replicate 10 0) of
           (tot1, out1, rs1) \<Rightarrow>
             (of_nat tot1, out1,
              two_producer_channel\<lparr>rings := rs1 @
                drop (unat (producer_count two_producer_channel))
                  (rings two_producer_channel)\<rparr>))"
    using channel_recv_sweeps_in_order [of "replicate 10 0" two_producer_channel small_cfg] l w
    by blast
  then have "fst (channel_recv small_cfg (replicate 10 0) two_producer_channel) =
      of_nat (fst (recv_sweep small_cfg (take (unat (producer_count two_producer_channel))
          (rings two_producer_channel)) 0 (replicate 10 0)))"
    by (simp add: split_beta)
  then show ?thesis
    using l w s by simp
qed

lemma channel_recv_loop_split:
  "i \<le> j \<Longrightarrow> j \<le> count \<Longrightarrow>
   channel_recv_loop cfg i count tot out ch =
     (case channel_recv_loop cfg i j tot out ch of
        (i1, tot1, out1, ch1) \<Rightarrow> channel_recv_loop cfg i1 count tot1 out1 ch1)"
proof (induction cfg i j tot out ch rule: channel_recv_loop.induct)
  case (1 cfg i j tot out ch)
  show ?case
  proof (cases "i < j \<and> tot < of_nat (length out)")
    case False
    then show ?thesis
      by (simp only: channel_recv_loop_stop [OF False] prod.case)
  next
    case True
    obtain n sub rg where
      rc: "recv cfg (drop (unat tot) out) (rings ch ! unat i) = (n, sub, rg)"
      by (cases "recv cfg (drop (unat tot) out) (rings ch ! unat i)") auto
    have lt: "i < count"
      using True 1(3) by (auto intro: less_le_trans)
    have le: "i + 1 \<le> j"
      using True unat_succ_below [of i j] by (simp add: word_le_nat_alt word_less_nat_alt)
    have "channel_recv_loop cfg i count tot out ch =
        channel_recv_loop cfg (i + 1) count (tot + n) (take (unat tot) out @ sub)
          (ch\<lparr>rings := (rings ch)[unat i := rg]\<rparr>)"
      using lt True rc by (intro channel_recv_loop_step) simp_all
    moreover have "channel_recv_loop cfg i j tot out ch =
        channel_recv_loop cfg (i + 1) j (tot + n) (take (unat tot) out @ sub)
          (ch\<lparr>rings := (rings ch)[unat i := rg]\<rparr>)"
      using True rc by (intro channel_recv_loop_step) simp_all
    ultimately show ?thesis
      using 1(1) [OF True rc [symmetric] refl refl le 1(3)] by (simp only:)
  qed
qed

lemma channel_recv_loop_rings:
  "i \<le> count \<Longrightarrow> channel_recv_loop cfg i count tot out ch = (i1, tot1, out1, ch1) \<Longrightarrow>
   length (rings ch1) = length (rings ch) \<and>
   (\<forall>k. unat count \<le> k \<longrightarrow> rings ch1 ! k = rings ch ! k)"
proof (induction cfg i count tot out ch rule: channel_recv_loop.induct)
  case (1 cfg i count tot out ch)
  show ?case
  proof (cases "i < count \<and> tot < of_nat (length out)")
    case False
    then show ?thesis
      using 1(3) channel_recv_loop_stop [OF False, of cfg ch] by simp
  next
    case True
    obtain n sub rg where
      rc: "recv cfg (drop (unat tot) out) (rings ch ! unat i) = (n, sub, rg)"
      by (cases "recv cfg (drop (unat tot) out) (rings ch ! unat i)") auto
    have le: "i + 1 \<le> count" and lt: "unat i < unat count"
      using True unat_succ_below [of i count]
      by (simp_all add: word_le_nat_alt word_less_nat_alt)
    have e: "channel_recv_loop cfg (i + 1) count (tot + n) (take (unat tot) out @ sub)
          (ch\<lparr>rings := (rings ch)[unat i := rg]\<rparr>) = (i1, tot1, out1, ch1)"
      using 1(3) True channel_recv_loop_step [OF _ _ rc, of count] by simp
    show ?thesis
      using 1(1) [OF True rc [symmetric] refl refl le e] lt by simp
  qed
qed


lemma channel_recv_loop_rings_below:
  "i \<le> count \<Longrightarrow> channel_recv_loop cfg i count tot out ch = (i1, tot1, out1, ch1) \<Longrightarrow>
   (\<forall>k. k < unat i \<longrightarrow> rings ch1 ! k = rings ch ! k)"
proof (induction cfg i count tot out ch rule: channel_recv_loop.induct)
  case (1 cfg i count tot out ch)
  show ?case
  proof (cases "i < count \<and> tot < of_nat (length out)")
    case False
    then show ?thesis
      using 1(3) channel_recv_loop_stop [OF False, of cfg ch] by simp
  next
    case True
    obtain n sub rg where
      rc: "recv cfg (drop (unat tot) out) (rings ch ! unat i) = (n, sub, rg)"
      by (cases "recv cfg (drop (unat tot) out) (rings ch ! unat i)") auto
    have le: "i + 1 \<le> count" and su: "unat (i + 1) = Suc (unat i)"
      using True unat_succ_below [of i count]
      by (simp_all add: word_le_nat_alt word_less_nat_alt)
    have e: "channel_recv_loop cfg (i + 1) count (tot + n) (take (unat tot) out @ sub)
          (ch\<lparr>rings := (rings ch)[unat i := rg]\<rparr>) = (i1, tot1, out1, ch1)"
      using 1(3) True channel_recv_loop_step [OF _ _ rc, of count] by simp
    show ?thesis
      using 1(1) [OF True rc [symmetric] refl refl le e] su by simp
  qed
qed

lemma channel_recv_turn:
  assumes l: "length out < 2 ^ 64" and j: "j < count"
    and pre: "channel_recv_loop cfg 0 j 0 out ch = (i1, tot1, out1, ch1)"
  shows "rings ch1 ! unat j = rings ch ! unat j"
    and "length (rings ch1) = length (rings ch)"
    and "unat tot1 < length out \<Longrightarrow>
       channel_recv_loop cfg 0 count 0 out ch =
         (case recv cfg (drop (unat tot1) out1) (rings ch ! unat j) of
            (n, sub, rg) \<Rightarrow>
              channel_recv_loop cfg (j + 1) count (tot1 + n) (take (unat tot1) out1 @ sub)
                (ch1\<lparr>rings := (rings ch1)[unat j := rg]\<rparr>))"
    and "\<not> unat tot1 < length out \<Longrightarrow>
       channel_recv_loop cfg 0 count 0 out ch = (i1, tot1, out1, ch1)"
    and "j < fst (channel_recv_loop cfg 0 count 0 out ch) \<longleftrightarrow> unat tot1 < length out"
proof -
  have jc: "j \<le> count"
    using j by simp
  note ex = channel_recv_loop_exit [OF l _ _ pre, simplified]
  note rg = channel_recv_loop_rings [OF _ pre, simplified]
  have sp: "channel_recv_loop cfg 0 count 0 out ch = channel_recv_loop cfg i1 count tot1 out1 ch1"
    using channel_recv_loop_split [of 0 j count cfg 0 out ch] jc by (simp add: pre)
  have lo: "unat (of_nat (length out1) :: usize) = length out"
    using ex l by (simp add: unat_of_nat_length)
  show same: "rings ch1 ! unat j = rings ch ! unat j"
    using rg by simp
  show "length (rings ch1) = length (rings ch)"
    using rg by simp
  have stop: "channel_recv_loop cfg 0 count 0 out ch = (i1, tot1, out1, ch1)"
    if "\<not> unat tot1 < length out"
  proof -
    have "\<not> (i1 < count \<and> tot1 < of_nat (length out1))"
      using that lo by (simp add: word_less_nat_alt)
    then show ?thesis
      unfolding sp by (rule channel_recv_loop_stop)
  qed
  have go: "channel_recv_loop cfg 0 count 0 out ch =
         (case recv cfg (drop (unat tot1) out1) (rings ch ! unat j) of
            (n, sub, rg) \<Rightarrow>
              channel_recv_loop cfg (j + 1) count (tot1 + n) (take (unat tot1) out1 @ sub)
                (ch1\<lparr>rings := (rings ch1)[unat j := rg]\<rparr>))"
    if room: "unat tot1 < length out"
  proof -
    have i1: "i1 = j"
      using ex room by simp
    have w: "tot1 < of_nat (length out1)"
      using room lo by (simp add: word_less_nat_alt)
    obtain n sub rg where
      rc: "recv cfg (drop (unat tot1) out1) (rings ch1 ! unat j) = (n, sub, rg)"
      by (cases "recv cfg (drop (unat tot1) out1) (rings ch1 ! unat j)") auto
    have "channel_recv_loop cfg j count tot1 out1 ch1 =
        channel_recv_loop cfg (j + 1) count (tot1 + n) (take (unat tot1) out1 @ sub)
          (ch1\<lparr>rings := (rings ch1)[unat j := rg]\<rparr>)"
      using j w rc by (rule channel_recv_loop_step)
    then show ?thesis
      using rc by (simp add: sp i1 same)
  qed
  show "unat tot1 < length out \<Longrightarrow>
       channel_recv_loop cfg 0 count 0 out ch =
         (case recv cfg (drop (unat tot1) out1) (rings ch ! unat j) of
            (n, sub, rg) \<Rightarrow>
              channel_recv_loop cfg (j + 1) count (tot1 + n) (take (unat tot1) out1 @ sub)
                (ch1\<lparr>rings := (rings ch1)[unat j := rg]\<rparr>))"
    by (rule go)
  show "\<not> unat tot1 < length out \<Longrightarrow>
       channel_recv_loop cfg 0 count 0 out ch = (i1, tot1, out1, ch1)"
    by (rule stop)
  show "j < fst (channel_recv_loop cfg 0 count 0 out ch) \<longleftrightarrow> unat tot1 < length out"
  proof (cases "unat tot1 < length out")
    case False
    have "i1 \<le> j"
      using ex by simp
    then have "\<not> j < i1"
      by (simp add: not_less)
    then show ?thesis
      using False stop [OF False] by simp
  next
    case True
    obtain n sub rg where
      rc: "recv cfg (drop (unat tot1) out1) (rings ch ! unat j) = (n, sub, rg)"
      by (cases "recv cfg (drop (unat tot1) out1) (rings ch ! unat j)") auto
    have l1: "length out1 < 2 ^ 64" and room1: "unat tot1 < length out1"
      using ex l True by simp_all
    note sub = recv_into_subspan [OF l1 room1 rc]
    obtain i2 tot2 out2 ch2 where
      e: "channel_recv_loop cfg (j + 1) count (tot1 + n) (take (unat tot1) out1 @ sub)
            (ch1\<lparr>rings := (rings ch1)[unat j := rg]\<rparr>) = (i2, tot2, out2, ch2)"
      by (cases "channel_recv_loop cfg (j + 1) count (tot1 + n) (take (unat tot1) out1 @ sub)
            (ch1\<lparr>rings := (rings ch1)[unat j := rg]\<rparr>)") auto
    have le: "j + 1 \<le> count" and lt: "j < j + 1"
      using j unat_succ_below [of j count]
      by (simp_all add: word_le_nat_alt word_less_nat_alt)
    have "j + 1 \<le> i2"
      using channel_recv_loop_exit [OF _ le _ e] sub l1 by simp
    with lt have "j < i2"
      by (rule less_le_trans)
    then show ?thesis
      using True go [OF True] rc e by simp
  qed
qed


lemma channel_recv_ring_after:
  assumes l: "length out < 2 ^ 64" and j: "j < count"
    and wf: "unat count \<le> length (rings ch)"
    and pre: "channel_recv_loop cfg 0 j 0 out ch = (i1, tot1, out1, ch1)"
  shows "rings (snd (snd (snd (channel_recv_loop cfg 0 count 0 out ch)))) ! unat j =
     (if unat tot1 < length out
      then snd (snd (recv cfg (drop (unat tot1) out1) (rings ch ! unat j)))
      else rings ch ! unat j)"
proof (cases "unat tot1 < length out")
  case False
  then show ?thesis
    using channel_recv_turn(1,4) [OF l j pre] by simp
next
  case True
  obtain n sub rg where
    rc: "recv cfg (drop (unat tot1) out1) (rings ch ! unat j) = (n, sub, rg)"
    by (cases "recv cfg (drop (unat tot1) out1) (rings ch ! unat j)") auto
  obtain i2 tot2 out2 ch2 where
    e: "channel_recv_loop cfg (j + 1) count (tot1 + n) (take (unat tot1) out1 @ sub)
          (ch1\<lparr>rings := (rings ch1)[unat j := rg]\<rparr>) = (i2, tot2, out2, ch2)"
    by (cases "channel_recv_loop cfg (j + 1) count (tot1 + n) (take (unat tot1) out1 @ sub)
          (ch1\<lparr>rings := (rings ch1)[unat j := rg]\<rparr>)") auto
  have le: "j + 1 \<le> count" and su: "unat (j + 1) = Suc (unat j)" and jn: "unat j < unat count"
    using j unat_succ_below [of j count]
    by (simp_all add: word_le_nat_alt word_less_nat_alt)
  have "rings ch2 ! unat j = (rings ch1)[unat j := rg] ! unat j"
    using channel_recv_loop_rings_below [OF le e] su by simp
  also have "\<dots> = rg"
    using channel_recv_turn(2) [OF l j pre] wf jn by simp
  finally show ?thesis
    using True channel_recv_turn(3) [OF l j pre True] rc e by simp
qed

lemma channel_recv_loop_two_steps:
  assumes "length out < 2 ^ 64" "unat tot \<le> length out"
    and "i < count" "tot < of_nat (length out)" "i + 1 < count"
    and "tot + fst (recv cfg (drop (unat tot) out) (rings ch ! unat i)) < of_nat (length out)"
  shows "channel_recv_loop cfg i count tot out ch =
     (case recv cfg (drop (unat tot) out) (rings ch ! unat i) of
        (n, sub, rg) \<Rightarrow>
          (case recv cfg (drop (unat (tot + n)) (take (unat tot) out @ sub))
                  (rings ch ! unat (i + 1)) of
             (n2, sub2, rg2) \<Rightarrow>
               channel_recv_loop cfg (i + 1 + 1) count (tot + n + n2)
                 (take (unat (tot + n)) (take (unat tot) out @ sub) @ sub2)
                 (ch\<lparr>rings := (rings ch)[unat i := rg, unat (i + 1) := rg2]\<rparr>)))"
proof -
  have lo: "unat (of_nat (length out) :: usize) = length out"
    using assms(1) by (rule unat_of_nat_length)
  have room: "unat tot < length out"
    using assms(4) lo by (simp add: word_less_nat_alt)
  obtain n sub rg1 where
    rc: "recv cfg (drop (unat tot) out) (rings ch ! unat i) = (n, sub, rg1)"
    by (cases "recv cfg (drop (unat tot) out) (rings ch ! unat i)") auto
  define out1 where "out1 = take (unat tot) out @ sub"
  define ch1 where "ch1 = ch\<lparr>rings := (rings ch)[unat i := rg1]\<rparr>"
  note sp = recv_into_subspan [OF assms(1) room rc, folded out1_def]
  have s1: "channel_recv_loop cfg i count tot out ch =
      channel_recv_loop cfg (i + 1) count (tot + n) out1 ch1"
    unfolding out1_def ch1_def using assms(3,4) rc by (rule channel_recv_loop_step)
  have room1: "tot + n < of_nat (length out1)"
    using assms(6) rc sp(1) by simp
  have su: "unat (i + 1) = Suc (unat i)"
    using assms(3) by (rule unat_succ_below)
  have nx: "rings ch1 ! unat (i + 1) = rings ch ! unat (i + 1)"
    by (simp add: ch1_def su)
  obtain n2 sub2 rg2 where
    rc2: "recv cfg (drop (unat (tot + n)) out1) (rings ch1 ! unat (i + 1)) = (n2, sub2, rg2)"
    by (cases "recv cfg (drop (unat (tot + n)) out1) (rings ch1 ! unat (i + 1))") auto
  have s2: "channel_recv_loop cfg (i + 1) count (tot + n) out1 ch1 =
      channel_recv_loop cfg (i + 1 + 1) count (tot + n + n2)
        (take (unat (tot + n)) out1 @ sub2)
        (ch1\<lparr>rings := (rings ch1)[unat (i + 1) := rg2]\<rparr>)"
    using assms(5) room1 rc2 by (rule channel_recv_loop_step)
  have "recv cfg (drop (unat (tot + n)) out1) (rings ch ! unat (i + 1)) = (n2, sub2, rg2)"
    using rc2 by (simp only: nx)
  then show ?thesis
    unfolding s1 s2 by (simp add: rc out1_def ch1_def)
qed

text \<open>
  Claim C7, as stated, fails on the test scenario: ring 0 holds two items, so its \<open>recv\<close>
  into the 10 free cells of \<open>out\<close> returns 2, fewer than the space remaining, and yet
  \<open>Ring::recv\<close> runs on ring 1, of greater index, in the same call: the head of ring 1
  moves from 0 to 2, its items 20, 21 are written to \<open>out\<close> after those of ring 0, and
  the call returns 4.
\<close>

theorem channel_recv_continues_after_short_ring:
  "fst (recv small_cfg (drop 0 (replicate 10 0)) (rings two_producer_channel ! 0)) = 2 \<and>
   unat (2 :: usize) < length (drop 0 (replicate 10 (0::nat))) \<and>
   (0 :: usize) < 1 \<and>
   channel_recv_visits small_cfg (replicate 10 0) two_producer_channel 1 \<and>
   head (rings two_producer_channel ! 1) = 0 \<and>
   head (rings (snd (snd (channel_recv small_cfg (replicate 10 0) two_producer_channel))) ! 1)
     = 2 \<and>
   fst (channel_recv small_cfg (replicate 10 0) two_producer_channel) = 4 \<and>
   take 4 (fst (snd (channel_recv small_cfg (replicate 10 0) two_producer_channel))) =
     [10, 11, 20, 21]"
  by code_simp

text \<open>
  Claim C7, amended. \<open>Channel::recv\<close> stops only when \<open>out\<close> is full or every registered
  ring has had its turn; a ring whose \<open>recv\<close> returns fewer items than the space
  remaining does not stop the sweep. For an output span (its size is a \<open>size_t\<close>):
  \<^item> the rings visited in one call are registered rings and form an initial segment of
    the indices, and a registered ring is left unvisited only if the call has filled
    \<open>out\<close> completely;
  \<^item> when the \<open>recv\<close> of ring \<open>i\<close> returns fewer items than the space remaining and ring
    \<open>i + 1\<close> is registered, the loop goes on: it is \<open>Ring::recv\<close> on ring \<open>i\<close>, then
    \<open>Ring::recv\<close> on ring \<open>i + 1\<close> (in the state it had before) into \<open>out\<close> from the
    first cell not yet written, then the loop from ring \<open>i + 2\<close>;
  \<^item> for every registered ring \<open>j\<close>, with \<open>tot1\<close>, \<open>out1\<close>, \<open>ch1\<close> the result of the sweep
    over the rings below \<open>j\<close> (which leaves ring \<open>j\<close> as it was): ring \<open>j\<close> is visited
    exactly when \<open>tot1\<close> is below the size of \<open>out\<close>; then the call is \<open>Ring::recv\<close> on
    ring \<open>j\<close> into \<open>out1\<close> from cell \<open>tot1\<close> on, followed by the loop from ring \<open>j + 1\<close>,
    and ring \<open>j\<close> ends as that \<open>Ring::recv\<close> leaves it; otherwise the call ends with the
    result of the sweep below \<open>j\<close>, and ring \<open>j\<close> ends as it was.
\<close>

theorem channel_recv_stops_only_when_full:
  "length out < 2 ^ 64 \<longrightarrow>
     (channel_recv_visits cfg out ch j \<longrightarrow> j < producer_count ch) \<and>
     (channel_recv_visits cfg out ch j \<and> k \<le> j \<longrightarrow> channel_recv_visits cfg out ch k) \<and>
     (j < producer_count ch \<and> \<not> channel_recv_visits cfg out ch j \<longrightarrow>
        unat (fst (channel_recv cfg out ch)) = length out) \<and>
     (unat tot \<le> length out \<and> i < count \<and> tot < of_nat (length out) \<and> i + 1 < count \<and>
      tot + fst (recv cfg (drop (unat tot) out) (rings ch ! unat i)) < of_nat (length out)
        \<longrightarrow> i + 1 < fst (channel_recv_loop cfg i count tot out ch)) \<and>
     (unat tot \<le> length out \<and> i < count \<and> tot < of_nat (length out) \<and> i + 1 < count \<and>
      tot + fst (recv cfg (drop (unat tot) out) (rings ch ! unat i)) < of_nat (length out)
        \<longrightarrow> channel_recv_loop cfg i count tot out ch =
          (case recv cfg (drop (unat tot) out) (rings ch ! unat i) of
             (n, sub, rg) \<Rightarrow>
               (case recv cfg (drop (unat (tot + n)) (take (unat tot) out @ sub))
                       (rings ch ! unat (i + 1)) of
                  (n2, sub2, rg2) \<Rightarrow>
                    channel_recv_loop cfg (i + 1 + 1) count (tot + n + n2)
                      (take (unat (tot + n)) (take (unat tot) out @ sub) @ sub2)
                      (ch\<lparr>rings := (rings ch)[unat i := rg, unat (i + 1) := rg2]\<rparr>)))) \<and>
     (j < producer_count ch \<and> unat (producer_count ch) \<le> length (rings ch) \<longrightarrow>
        (case channel_recv_loop cfg 0 j 0 out ch of
           (i1, tot1, out1, ch1) \<Rightarrow>
             (channel_recv_visits cfg out ch j \<longleftrightarrow> unat tot1 < length out) \<and>
             rings ch1 ! unat j = rings ch ! unat j \<and>
             (unat tot1 < length out \<longrightarrow>
                channel_recv_loop cfg 0 (producer_count ch) 0 out ch =
                  (case recv cfg (drop (unat tot1) out1) (rings ch ! unat j) of
                     (n, sub, rg) \<Rightarrow>
                       channel_recv_loop cfg (j + 1) (producer_count ch) (tot1 + n)
                         (take (unat tot1) out1 @ sub)
                         (ch1\<lparr>rings := (rings ch1)[unat j := rg]\<rparr>))) \<and>
             (\<not> unat tot1 < length out \<longrightarrow>
                channel_recv_loop cfg 0 (producer_count ch) 0 out ch = (i1, tot1, out1, ch1)) \<and>
             rings (snd (snd (channel_recv cfg out ch))) ! unat j =
               (if unat tot1 < length out
                then snd (snd (recv cfg (drop (unat tot1) out1) (rings ch ! unat j)))
                else rings ch ! unat j)))"
proof
  assume l: "length out < 2 ^ 64"
  obtain i1 tot1 out1 ch1 where
    e: "channel_recv_loop cfg 0 (producer_count ch) 0 out ch = (i1, tot1, out1, ch1)"
    by (cases "channel_recv_loop cfg 0 (producer_count ch) 0 out ch") auto
  have ex: "i1 \<le> producer_count ch" "i1 = producer_count ch \<or> unat tot1 = length out"
    using channel_recv_loop_exit [OF l _ _ e] by simp_all
  have v: "channel_recv_visits cfg out ch x \<longleftrightarrow> x < i1" for x
    by (simp add: channel_recv_visits_def e)
  have t: "fst (channel_recv cfg out ch) = tot1"
    by (simp add: channel_recv_def e)
  have a: "channel_recv_visits cfg out ch j \<longrightarrow> j < producer_count ch"
  proof
    assume "channel_recv_visits cfg out ch j"
    then have "j < i1"
      by (simp add: v)
    then show "j < producer_count ch"
      using ex(1) by (rule less_le_trans)
  qed
  have b: "channel_recv_visits cfg out ch j \<and> k \<le> j \<longrightarrow> channel_recv_visits cfg out ch k"
  proof (intro impI, elim conjE)
    assume "channel_recv_visits cfg out ch j" "k \<le> j"
    then have "k \<le> j" "j < i1"
      by (simp_all add: v)
    then have "k < i1"
      by (rule le_less_trans)
    then show "channel_recv_visits cfg out ch k"
      by (simp add: v)
  qed
  have c: "j < producer_count ch \<and> \<not> channel_recv_visits cfg out ch j \<longrightarrow>
        unat (fst (channel_recv cfg out ch)) = length out"
  proof (intro impI, elim conjE)
    assume "j < producer_count ch" "\<not> channel_recv_visits cfg out ch j"
    then have "i1 \<noteq> producer_count ch"
      by (cases "i1 = producer_count ch") (simp_all add: v)
    with ex(2) show "unat (fst (channel_recv cfg out ch)) = length out"
      by (simp add: t)
  qed
  have d: "unat tot \<le> length out \<and> i < count \<and> tot < of_nat (length out) \<and>
      i + 1 < count \<and>
      tot + fst (recv cfg (drop (unat tot) out) (rings ch ! unat i)) < of_nat (length out)
        \<longrightarrow> i + 1 < fst (channel_recv_loop cfg i count tot out ch)"
  proof (intro impI, elim conjE)
    assume "unat tot \<le> length out" "i < count" "tot < of_nat (length out)" "i + 1 < count"
      "tot + fst (recv cfg (drop (unat tot) out) (rings ch ! unat i)) < of_nat (length out)"
    with l show "i + 1 < fst (channel_recv_loop cfg i count tot out ch)"
      by (rule channel_recv_loop_continues)
  qed
  have f: "unat tot \<le> length out \<and> i < count \<and> tot < of_nat (length out) \<and>
      i + 1 < count \<and>
      tot + fst (recv cfg (drop (unat tot) out) (rings ch ! unat i)) < of_nat (length out)
        \<longrightarrow> channel_recv_loop cfg i count tot out ch =
          (case recv cfg (drop (unat tot) out) (rings ch ! unat i) of
             (n, sub, rg) \<Rightarrow>
               (case recv cfg (drop (unat (tot + n)) (take (unat tot) out @ sub))
                       (rings ch ! unat (i + 1)) of
                  (n2, sub2, rg2) \<Rightarrow>
                    channel_recv_loop cfg (i + 1 + 1) count (tot + n + n2)
                      (take (unat (tot + n)) (take (unat tot) out @ sub) @ sub2)
                      (ch\<lparr>rings := (rings ch)[unat i := rg, unat (i + 1) := rg2]\<rparr>)))"
  proof (intro impI, elim conjE)
    assume "unat tot \<le> length out" "i < count" "tot < of_nat (length out)" "i + 1 < count"
      "tot + fst (recv cfg (drop (unat tot) out) (rings ch ! unat i)) < of_nat (length out)"
    with l show "channel_recv_loop cfg i count tot out ch =
          (case recv cfg (drop (unat tot) out) (rings ch ! unat i) of
             (n, sub, rg) \<Rightarrow>
               (case recv cfg (drop (unat (tot + n)) (take (unat tot) out @ sub))
                       (rings ch ! unat (i + 1)) of
                  (n2, sub2, rg2) \<Rightarrow>
                    channel_recv_loop cfg (i + 1 + 1) count (tot + n + n2)
                      (take (unat (tot + n)) (take (unat tot) out @ sub) @ sub2)
                      (ch\<lparr>rings := (rings ch)[unat i := rg, unat (i + 1) := rg2]\<rparr>)))"
      by (rule channel_recv_loop_two_steps)
  qed
  have g: "j < producer_count ch \<and> unat (producer_count ch) \<le> length (rings ch) \<longrightarrow>
        (case channel_recv_loop cfg 0 j 0 out ch of
           (i1, tot1, out1, ch1) \<Rightarrow>
             (channel_recv_visits cfg out ch j \<longleftrightarrow> unat tot1 < length out) \<and>
             rings ch1 ! unat j = rings ch ! unat j \<and>
             (unat tot1 < length out \<longrightarrow>
                channel_recv_loop cfg 0 (producer_count ch) 0 out ch =
                  (case recv cfg (drop (unat tot1) out1) (rings ch ! unat j) of
                     (n, sub, rg) \<Rightarrow>
                       channel_recv_loop cfg (j + 1) (producer_count ch) (tot1 + n)
                         (take (unat tot1) out1 @ sub)
                         (ch1\<lparr>rings := (rings ch1)[unat j := rg]\<rparr>))) \<and>
             (\<not> unat tot1 < length out \<longrightarrow>
                channel_recv_loop cfg 0 (producer_count ch) 0 out ch = (i1, tot1, out1, ch1)) \<and>
             rings (snd (snd (channel_recv cfg out ch))) ! unat j =
               (if unat tot1 < length out
                then snd (snd (recv cfg (drop (unat tot1) out1) (rings ch ! unat j)))
                else rings ch ! unat j))"
  proof (intro impI, elim conjE)
    assume j: "j < producer_count ch" and wf: "unat (producer_count ch) \<le> length (rings ch)"
    obtain i2 tot2 out2 ch2 where
      pre: "channel_recv_loop cfg 0 j 0 out ch = (i2, tot2, out2, ch2)"
      by (cases "channel_recv_loop cfg 0 j 0 out ch") auto
    note turn = channel_recv_turn [OF l j pre]
    have vis: "channel_recv_visits cfg out ch j \<longleftrightarrow> unat tot2 < length out"
      using turn(5) by (simp add: channel_recv_visits_def)
    have fin: "rings (snd (snd (channel_recv cfg out ch))) ! unat j =
               (if unat tot2 < length out
                then snd (snd (recv cfg (drop (unat tot2) out2) (rings ch ! unat j)))
                else rings ch ! unat j)"
      using channel_recv_ring_after [OF l j wf pre] by (simp add: channel_recv_def split_beta)
    show "case channel_recv_loop cfg 0 j 0 out ch of
           (i1, tot1, out1, ch1) \<Rightarrow>
             (channel_recv_visits cfg out ch j \<longleftrightarrow> unat tot1 < length out) \<and>
             rings ch1 ! unat j = rings ch ! unat j \<and>
             (unat tot1 < length out \<longrightarrow>
                channel_recv_loop cfg 0 (producer_count ch) 0 out ch =
                  (case recv cfg (drop (unat tot1) out1) (rings ch ! unat j) of
                     (n, sub, rg) \<Rightarrow>
                       channel_recv_loop cfg (j + 1) (producer_count ch) (tot1 + n)
                         (take (unat tot1) out1 @ sub)
                         (ch1\<lparr>rings := (rings ch1)[unat j := rg]\<rparr>))) \<and>
             (\<not> unat tot1 < length out \<longrightarrow>
                channel_recv_loop cfg 0 (producer_count ch) 0 out ch = (i1, tot1, out1, ch1)) \<and>
             rings (snd (snd (channel_recv cfg out ch))) ! unat j =
               (if unat tot1 < length out
                then snd (snd (recv cfg (drop (unat tot1) out1) (rings ch ! unat j)))
                else rings ch ! unat j)"
      unfolding pre prod.case
      using vis turn(1) turn(3) turn(4) fin
      by (intro conjI impI) assumption+
  qed
  show "(channel_recv_visits cfg out ch j \<longrightarrow> j < producer_count ch) \<and>
     (channel_recv_visits cfg out ch j \<and> k \<le> j \<longrightarrow> channel_recv_visits cfg out ch k) \<and>
     (j < producer_count ch \<and> \<not> channel_recv_visits cfg out ch j \<longrightarrow>
        unat (fst (channel_recv cfg out ch)) = length out) \<and>
     (unat tot \<le> length out \<and> i < count \<and> tot < of_nat (length out) \<and> i + 1 < count \<and>
      tot + fst (recv cfg (drop (unat tot) out) (rings ch ! unat i)) < of_nat (length out)
        \<longrightarrow> i + 1 < fst (channel_recv_loop cfg i count tot out ch)) \<and>
     (unat tot \<le> length out \<and> i < count \<and> tot < of_nat (length out) \<and> i + 1 < count \<and>
      tot + fst (recv cfg (drop (unat tot) out) (rings ch ! unat i)) < of_nat (length out)
        \<longrightarrow> channel_recv_loop cfg i count tot out ch =
          (case recv cfg (drop (unat tot) out) (rings ch ! unat i) of
             (n, sub, rg) \<Rightarrow>
               (case recv cfg (drop (unat (tot + n)) (take (unat tot) out @ sub))
                       (rings ch ! unat (i + 1)) of
                  (n2, sub2, rg2) \<Rightarrow>
                    channel_recv_loop cfg (i + 1 + 1) count (tot + n + n2)
                      (take (unat (tot + n)) (take (unat tot) out @ sub) @ sub2)
                      (ch\<lparr>rings := (rings ch)[unat i := rg, unat (i + 1) := rg2]\<rparr>)))) \<and>
     (j < producer_count ch \<and> unat (producer_count ch) \<le> length (rings ch) \<longrightarrow>
        (case channel_recv_loop cfg 0 j 0 out ch of
           (i1, tot1, out1, ch1) \<Rightarrow>
             (channel_recv_visits cfg out ch j \<longleftrightarrow> unat tot1 < length out) \<and>
             rings ch1 ! unat j = rings ch ! unat j \<and>
             (unat tot1 < length out \<longrightarrow>
                channel_recv_loop cfg 0 (producer_count ch) 0 out ch =
                  (case recv cfg (drop (unat tot1) out1) (rings ch ! unat j) of
                     (n, sub, rg) \<Rightarrow>
                       channel_recv_loop cfg (j + 1) (producer_count ch) (tot1 + n)
                         (take (unat tot1) out1 @ sub)
                         (ch1\<lparr>rings := (rings ch1)[unat j := rg]\<rparr>))) \<and>
             (\<not> unat tot1 < length out \<longrightarrow>
                channel_recv_loop cfg 0 (producer_count ch) 0 out ch = (i1, tot1, out1, ch1)) \<and>
             rings (snd (snd (channel_recv cfg out ch))) ! unat j =
               (if unat tot1 < length out
                then snd (snd (recv cfg (drop (unat tot1) out1) (rings ch ! unat j)))
                else rings ch ! unat j)))"
    by (rule conjI [OF a conjI [OF b conjI [OF c conjI [OF d conjI [OF f g]]]]])
qed

theorem channel_recv_stops_only_when_full_witness:
  "channel_recv_visits small_cfg (replicate 10 0) two_producer_channel 1 \<and>
   head (rings (snd (snd (channel_recv small_cfg (replicate 10 0) two_producer_channel))) !
     unat (1 :: usize)) = 2 \<and>
   (0 :: usize) + 1 <
     fst (channel_recv_loop small_cfg 0 2 0 (replicate 10 0) two_producer_channel) \<and>
   \<not> channel_recv_visits small_cfg [0, 0] two_producer_channel 1 \<and>
   rings (snd (snd (channel_recv small_cfg [0, 0] two_producer_channel))) ! unat (1 :: usize) =
     rings two_producer_channel ! unat (1 :: usize) \<and>
   unat (fst (channel_recv small_cfg [0, 0] two_producer_channel)) = length [0, 0 :: nat]"
proof -
  have l: "length [0, 0 :: nat] < 2 ^ 64" "length (replicate 10 (0::nat)) < 2 ^ 64"
    by simp_all
  have p: "(1 :: usize) < producer_count two_producer_channel"
    by code_simp
  have wf: "unat (producer_count two_producer_channel) \<le> length (rings two_producer_channel)"
    by code_simp
  note long = channel_recv_stops_only_when_full
      [of "replicate 10 0" small_cfg two_producer_channel 1 0 0 0 2, THEN mp, OF l(2)]
  note short = channel_recv_stops_only_when_full
      [of "[0, 0]" small_cfg two_producer_channel 1 0 0 0 0, THEN mp, OF l(1)]
  note turn_long = long [THEN conjunct2, THEN conjunct2, THEN conjunct2, THEN conjunct2,
      THEN conjunct2, THEN mp, OF conjI [OF p wf], unfolded case_prod_beta]
  note turn_short = short [THEN conjunct2, THEN conjunct2, THEN conjunct2, THEN conjunct2,
      THEN conjunct2, THEN mp, OF conjI [OF p wf], unfolded case_prod_beta]
  have room: "unat (fst (snd (channel_recv_loop small_cfg 0 1 0 (replicate 10 0)
      two_producer_channel))) < length (replicate 10 (0::nat))"
    by code_simp
  have full: "\<not> unat (fst (snd (channel_recv_loop small_cfg 0 1 0 [0, 0]
      two_producer_channel))) < length [0, 0 :: nat]"
    by code_simp
  have hd: "head (snd (snd (recv small_cfg
      (drop (unat (fst (snd (channel_recv_loop small_cfg 0 1 0 (replicate 10 0)
          two_producer_channel))))
        (fst (snd (snd (channel_recv_loop small_cfg 0 1 0 (replicate 10 0)
          two_producer_channel)))))
      (rings two_producer_channel ! unat (1 :: usize))))) = 2"
    by code_simp
  have v1: "channel_recv_visits small_cfg (replicate 10 0) two_producer_channel 1"
    using turn_long [THEN conjunct1] room by (rule iffD2)
  have "rings (snd (snd (channel_recv small_cfg (replicate 10 0) two_producer_channel))) !
      unat (1 :: usize) =
    snd (snd (recv small_cfg
      (drop (unat (fst (snd (channel_recv_loop small_cfg 0 1 0 (replicate 10 0)
          two_producer_channel))))
        (fst (snd (snd (channel_recv_loop small_cfg 0 1 0 (replicate 10 0)
          two_producer_channel)))))
      (rings two_producer_channel ! unat (1 :: usize))))"
    using turn_long [THEN conjunct2, THEN conjunct2, THEN conjunct2, THEN conjunct2] room
    by (simp only: if_True)
  then have v2: "head (rings (snd (snd (channel_recv small_cfg (replicate 10 0)
      two_producer_channel))) ! unat (1 :: usize)) = 2"
    using hd by (simp only:)
  have h: "unat (0 :: usize) \<le> length (replicate 10 (0::nat))" "(0 :: usize) < 2"
    "(0 :: usize) < of_nat (length (replicate 10 (0::nat)))" "(0 :: usize) + 1 < 2"
    by simp_all
  have s: "(0 :: usize) + fst (recv small_cfg (drop (unat (0 :: usize)) (replicate 10 0))
        (rings two_producer_channel ! unat (0 :: usize)))
      < of_nat (length (replicate 10 (0::nat)))"
    by code_simp
  note v3 = long [THEN conjunct2, THEN conjunct2, THEN conjunct2, THEN conjunct1, THEN mp,
      OF conjI [OF h(1) conjI [OF h(2) conjI [OF h(3) conjI [OF h(4) s]]]]]
  have v4: "\<not> channel_recv_visits small_cfg [0, 0] two_producer_channel 1"
    using turn_short [THEN conjunct1] full by (simp only: simp_thms)
  have v5: "rings (snd (snd (channel_recv small_cfg [0, 0] two_producer_channel))) !
      unat (1 :: usize) = rings two_producer_channel ! unat (1 :: usize)"
    using turn_short [THEN conjunct2, THEN conjunct2, THEN conjunct2, THEN conjunct2] full
    by (simp only: if_False)
  note v6 = short [THEN conjunct2, THEN conjunct2, THEN conjunct1, THEN mp, OF conjI,
      OF p v4]
  show ?thesis
    by (rule conjI [OF v1 conjI [OF v2 conjI [OF v3 conjI [OF v4 conjI [OF v5 v6]]]]])
qed

section \<open>The ring as a queue: positions and cells\<close>

lemma unat_add_diff:
  "unat (a - b) + unat n < 2 ^ 64 \<Longrightarrow> unat (a + n - b :: 64 word) = unat (a - b) + unat n"
proof -
  assume h: "unat (a - b) + unat n < 2 ^ 64"
  have e: "a + n - b = (a - b) + n"
    by simp
  show ?thesis
    unfolding e using h by (rule unat_add_no_wrap)
qed

lemma unat_diff_add:
  "unat n \<le> unat (a - b) \<Longrightarrow> unat (a - (b + n) :: 64 word) = unat (a - b) - unat n"
proof -
  assume h: "unat n \<le> unat (a - b)"
  have e: "a - (b + n) = (a - b) - n"
    by simp
  have "n \<le> a - b"
    using h by (simp add: word_le_nat_alt)
  then show ?thesis
    unfolding e by (rule unat_sub)
qed

lemma unat_diff_split:
  "unat (b - c) + unat (a - b) < 2 ^ 64 \<Longrightarrow>
   unat (a - c :: 64 word) = unat (b - c) + unat (a - b)"
proof -
  assume h: "unat (b - c) + unat (a - b) < 2 ^ 64"
  have e: "a - c = (b - c) + (a - b)"
    by simp
  show ?thesis
    by (subst e) (rule unat_add_no_wrap [OF h])
qed

lemma cap_lt: "ring_bits cfg < 64 \<Longrightarrow> (2::nat) ^ ring_bits cfg < 2 ^ 64"
  by (rule power_strict_increasing) simp_all


lemma cap_dvd: "ring_bits cfg < 64 \<Longrightarrow> (2::nat) ^ ring_bits cfg dvd 2 ^ 64"
  by (rule le_imp_power_dvd) simp

lemma slot_offset:
  assumes "ring_bits cfg < 64"
  shows "unat ((q + of_nat i) AND MASK cfg) = (unat (q AND MASK cfg) + i) mod 2 ^ ring_bits cfg"
proof -
  let ?c = "(2::nat) ^ ring_bits cfg"
  note dv = cap_dvd [OF assms]
  have "unat (q + of_nat i) = (unat q + i mod 2 ^ 64) mod 2 ^ 64"
    by (simp add: unat_word_ariths unat_of_nat)
  then have "unat (q + of_nat i) mod ?c = (unat q + i mod 2 ^ 64) mod ?c"
    by (simp only: mod_mod_cancel [OF dv])
  also have "\<dots> = (unat q + i) mod ?c"
    by (rule mod_add_cong) (simp_all only: mod_mod_cancel [OF dv])
  also have "\<dots> = (unat q mod ?c + i) mod ?c"
    by (simp only: mod_add_left_eq)
  finally show ?thesis
    by (simp only: unat_and_MASK)
qed

lemma slot_less: "unat (q AND MASK cfg) < 2 ^ ring_bits cfg"
  by (simp add: unat_and_MASK)

lemma positions_nth:
  "i < unat (t - h) \<Longrightarrow> positions h t ! i = h + of_nat i"
  by (simp add: positions_def)

lemma length_positions: "length (positions h t) = unat (t - h)"
  by (simp add: positions_def)

lemma length_contents: "length (contents cfg r) = unat (tail r - head r)"
  by (simp add: contents_def length_positions)

lemma contents_nth:
  assumes "ring_bits cfg < 64" "i < unat (tail r - head r)"
  shows "contents cfg r ! i =
     buffer r ! ((unat (head r AND MASK cfg) + i) mod 2 ^ ring_bits cfg)"
  using assms by (simp add: contents_def length_positions positions_nth slot_offset)


lemma mod_offset_neq:
  fixes s i j c :: nat
  assumes "i < j" "j < c"
  shows "(s + i) mod c \<noteq> (s + j) mod c"
proof
  assume "(s + i) mod c = (s + j) mod c"
  then have "c dvd j - i"
    using assms(1) mod_eq_dvd_iff_nat [of "s + i" "s + j" c] by simp
  then have "c \<le> j - i"
    using assms(1) by (intro dvd_imp_le) simp_all
  then show False
    using assms by simp
qed

lemma mod_offset_in_range:
  fixes s j c :: nat
  assumes "s mod c + j < c"
  shows "(s + j) mod c = s mod c + j"
proof -
  have "(s + j) mod c = (s mod c + j) mod c"
    by (simp add: mod_add_left_eq)
  then show ?thesis
    using assms by simp
qed

lemma nth_copy_to:
  "k < length dst \<Longrightarrow>
   copy_to xs dst i ! k = (if i \<le> k \<and> k < i + length xs then xs ! (k - i) else dst ! k)"
proof (induction xs dst i rule: copy_to.induct)
  case (1 dst i)
  then show ?case
    by auto
next
  case (2 x xs dst i)
  then show ?case
    by (auto simp: nth_list_update Suc_diff_le nth_Cons')
qed

lemma take_copy_to_0:
  assumes "length xs \<le> length dst"
  shows "take (length xs) (copy_to xs dst 0) = xs"
  using assms by (intro nth_equalityI) (simp_all add: length_copy_to nth_copy_to)

lemma unat_min: "unat (min a b :: 64 word) = min (unat a) (unat b)"
  by (simp add: min_def word_le_nat_alt)

lemma unat_of_nat_le: "unat (of_nat k :: 64 word) \<le> k"
  by (simp add: unat_of_nat)


lemma slot_tail:
  assumes "ring_bits cfg < 64"
  shows "unat (tail r AND MASK cfg) =
     (unat (head r AND MASK cfg) + unat (tail r - head r)) mod 2 ^ ring_bits cfg"
  using slot_offset [OF assms, of "head r" "unat (tail r - head r)"] by simp

lemma contents_eqI:
  assumes "ring_bits cfg < 64" "head r' = head r" "tail r' = tail r"
    and "\<And>i. i < unat (tail r - head r) \<Longrightarrow>
       buffer r' ! ((unat (head r AND MASK cfg) + i) mod 2 ^ ring_bits cfg) =
       buffer r ! ((unat (head r AND MASK cfg) + i) mod 2 ^ ring_bits cfg)"
  shows "contents cfg r' = contents cfg r"
  using assms by (intro nth_equalityI) (simp_all add: length_contents contents_nth)

lemma contents_commit:
  assumes b: "ring_bits cfg < 64"
    and fit: "unat (tail r - head r) + l \<le> 2 ^ ring_bits cfg"
    and inb: "unat (tail r AND MASK cfg) + l \<le> 2 ^ ring_bits cfg"
    and hd: "head r' = head r" and tl: "tail r' = tail r + of_nat l"
    and len: "length (buffer r') = 2 ^ ring_bits cfg"
    and agree: "\<And>i. i < unat (tail r - head r) \<Longrightarrow>
       buffer r' ! ((unat (head r AND MASK cfg) + i) mod 2 ^ ring_bits cfg) =
       buffer r ! ((unat (head r AND MASK cfg) + i) mod 2 ^ ring_bits cfg)"
  shows "contents cfg r' =
     contents cfg r @ take l (drop (unat (tail r AND MASK cfg)) (buffer r'))"
proof -
  let ?c = "(2::nat) ^ ring_bits cfg"
  let ?d = "unat (tail r - head r)"
  let ?sh = "unat (head r AND MASK cfg)"
  let ?st = "unat (tail r AND MASK cfg)"
  have l64: "l < 2 ^ 64"
    using fit cap_lt [OF b] by simp
  then have ul: "unat (of_nat l :: 64 word) = l"
    by (simp add: unat_of_nat)
  have d': "unat (tail r' - head r') = ?d + l"
    unfolding hd tl using unat_add_diff [of "tail r" "head r" "of_nat l"] ul fit cap_lt [OF b]
    by simp
  show ?thesis
  proof (rule nth_equalityI)
    show "length (contents cfg r') =
        length (contents cfg r @ take l (drop ?st (buffer r')))"
      using d' inb len by (simp add: length_contents)
  next
    fix k
    assume "k < length (contents cfg r')"
    then have k: "k < ?d + l"
      by (simp add: length_contents d')
    have lhs: "contents cfg r' ! k = buffer r' ! ((?sh + k) mod ?c)"
      using contents_nth [OF b, of k r'] k d' hd by simp
    show "contents cfg r' ! k = (contents cfg r @ take l (drop ?st (buffer r'))) ! k"
    proof (cases "k < ?d")
      case True
      then show ?thesis
        using lhs agree [OF True] contents_nth [OF b True]
        by (simp add: nth_append length_contents)
    next
      case False
      define j where "j = k - ?d"
      have j: "j < l" "k = ?d + j"
        using False k by (simp_all add: j_def)
      have "(?sh + k) mod ?c = ((?sh + ?d) mod ?c + j) mod ?c"
        by (simp add: j(2) mod_add_left_eq add.assoc)
      also have "\<dots> = (?st + j) mod ?c"
        by (simp only: slot_tail [OF b])
      also have "\<dots> = ?st + j"
        using inb j(1) by simp
      finally have idx: "(?sh + k) mod ?c = ?st + j" .
      have "take l (drop ?st (buffer r')) ! j = buffer r' ! (?st + j)"
        using j(1) inb len by simp
      then show ?thesis
        using False lhs idx j by (simp add: nth_append length_contents)
    qed
  qed
qed

lemma contents_advance:
  assumes b: "ring_bits cfg < 64"
    and n: "n \<le> unat (tail r - head r)" "unat (tail r - head r) \<le> 2 ^ ring_bits cfg"
    and hd: "head r' = head r + of_nat n" and tl: "tail r' = tail r"
    and buf: "buffer r' = buffer r"
  shows "contents cfg r' = drop n (contents cfg r)"
proof -
  let ?c = "(2::nat) ^ ring_bits cfg"
  let ?d = "unat (tail r - head r)"
  let ?sh = "unat (head r AND MASK cfg)"
  have "n < 2 ^ 64"
    using n cap_lt [OF b] by simp
  then have un: "unat (of_nat n :: 64 word) = n"
    by (simp add: unat_of_nat)
  have d': "unat (tail r' - head r') = ?d - n"
    unfolding hd tl using unat_diff_add [of "of_nat n" "tail r" "head r"] un n by simp
  have sh': "unat (head r' AND MASK cfg) = (?sh + n) mod ?c"
    unfolding hd by (rule slot_offset [OF b])
  show ?thesis
  proof (rule nth_equalityI)
    show "length (contents cfg r') = length (drop n (contents cfg r))"
      by (simp add: length_contents d')
  next
    fix i
    assume "i < length (contents cfg r')"
    then have i: "i < ?d - n"
      by (simp add: length_contents d')
    have "contents cfg r' ! i = buffer r ! (((?sh + n) mod ?c + i) mod ?c)"
      using contents_nth [OF b, of i r'] i d' sh' buf by simp
    also have "((?sh + n) mod ?c + i) mod ?c = (?sh + (n + i)) mod ?c"
      by (simp add: mod_add_left_eq add.assoc)
    also have "buffer r ! \<dots> = contents cfg r ! (n + i)"
      using contents_nth [OF b, of "n + i" r] i by simp
    finally show "contents cfg r' ! i = drop n (contents cfg r) ! i"
      using i by (simp add: length_contents)
  qed
qed

lemma view_read:
  assumes b: "ring_bits cfg < 64"
    and v: "m \<le> unat (tail r - head r)" "unat (head r AND MASK cfg) + m \<le> 2 ^ ring_bits cfg"
    and len: "length (buffer r) = 2 ^ ring_bits cfg"
  shows "take m (drop (unat (head r AND MASK cfg)) (buffer r)) = take m (contents cfg r)"
proof (rule nth_equalityI)
  show "length (take m (drop (unat (head r AND MASK cfg)) (buffer r))) =
      length (take m (contents cfg r))"
    using v len by (simp add: length_contents)
next
  fix i
  assume "i < length (take m (drop (unat (head r AND MASK cfg)) (buffer r)))"
  then have i: "i < m"
    by simp
  then have "(unat (head r AND MASK cfg) + i) mod 2 ^ ring_bits cfg =
      unat (head r AND MASK cfg) + i"
    using v(2) by simp
  then show "take m (drop (unat (head r AND MASK cfg)) (buffer r)) ! i =
      take m (contents cfg r) ! i"
    using i v len contents_nth [OF b, of i r] by simp
qed


section \<open>The ring as a queue: first in, first out\<close>

lemma commit_fields [simp]:
  "tail (commit cfg n r) = tail r + n" "head (commit cfg n r) = head r"
  "cached_head (commit cfg n r) = cached_head r" "cached_tail (commit cfg n r) = cached_tail r"
  "buffer (commit cfg n r) = buffer r" "closed (commit cfg n r) = closed r"
  by (simp_all add: commit_def Let_def)

lemma advance_fields [simp]:
  "tail (advance cfg n r) = tail r" "head (advance cfg n r) = head r + n"
  "cached_head (advance cfg n r) = cached_head r" "cached_tail (advance cfg n r) = cached_tail r"
  "buffer (advance cfg n r) = buffer r" "closed (advance cfg n r) = closed r"
  by (simp_all add: advance_def Let_def)

lemma unat_cap_minus:
  assumes "ring_bits cfg < 64" "unat x \<le> 2 ^ ring_bits cfg"
  shows "unat (CAPACITY cfg - x) = 2 ^ ring_bits cfg - unat x"
proof -
  have "x \<le> CAPACITY cfg"
    using assms by (simp add: word_le_nat_alt unat_CAPACITY)
  then show ?thesis
    using unat_sub [of x "CAPACITY cfg"] assms(1) by (simp add: unat_CAPACITY)
qed

lemma make_reservation_fields:
  assumes b: "ring_bits cfg < 64"
  shows "span_data (slice (make_reservation cfg t n)) = t AND MASK cfg"
    and "pos (make_reservation cfg t n) = t"
    and "unat (span_size (slice (make_reservation cfg t n))) =
       min (unat n) (2 ^ ring_bits cfg - unat (t AND MASK cfg))"
proof -
  have "unat (t AND MASK cfg) \<le> 2 ^ ring_bits cfg"
    using slot_less [of t cfg] by simp
  then show "unat (span_size (slice (make_reservation cfg t n))) =
       min (unat n) (2 ^ ring_bits cfg - unat (t AND MASK cfg))"
    by (simp add: make_reservation_def Let_def unat_min unat_cap_minus [OF b])
qed (simp_all add: make_reservation_def Let_def)

lemma reserve_frame:
  assumes "reserve cfg n r = (res, r1)"
  shows "head r1 = head r" "tail r1 = tail r" "cached_tail r1 = cached_tail r"
    "buffer r1 = buffer r" "cached_head r1 = cached_head r \<or> cached_head r1 = head r"
  using assms by (auto simp: reserve_def Let_def split: if_splits)

lemma reserve_space:
  assumes b: "ring_bits cfg < 64"
    and inv: "unat (head r - cached_head r) + unat (tail r - head r) \<le> 2 ^ ring_bits cfg"
    and rs: "reserve cfg n r = (Some res, r1)"
  shows "res = make_reservation cfg (tail r) n" "0 < unat n"
    "unat n + unat (head r1 - cached_head r1) + unat (tail r - head r) \<le> 2 ^ ring_bits cfg"
proof -
  let ?c = "(2::nat) ^ ring_bits cfg"
  let ?e = "unat (head r - cached_head r)"
  let ?d = "unat (tail r - head r)"
  have ux: "unat (tail r - cached_head r) = ?e + ?d"
    using inv cap_lt [OF b] by (intro unat_diff_split) simp
  have sp: "unat (CAPACITY cfg - (tail r - cached_head r)) = ?c - (?e + ?d)"
    using unat_cap_minus [OF b, of "tail r - cached_head r"] inv ux by simp
  have sp1: "unat (CAPACITY cfg - (tail r - head r)) = ?c - ?d"
    using unat_cap_minus [OF b, of "tail r - head r"] inv by simp
  have n0: "n \<noteq> 0" and ncap: "\<not> CAPACITY cfg < n"
    using rs by (auto simp: reserve_def split: if_splits)
  then have npos: "0 < unat n" and nle: "unat n \<le> ?c"
    by (simp_all add: unat_gt_0 word_less_nat_alt unat_CAPACITY [OF b])
  show "0 < unat n"
    by (rule npos)
  show "res = make_reservation cfg (tail r) n"
    using rs by (auto simp: reserve_def Let_def split: if_splits)
  show "unat n + unat (head r1 - cached_head r1) + ?d \<le> ?c"
  proof (cases "n \<le> CAPACITY cfg - (tail r - cached_head r)")
    case True
    then have "r1 = r"
      using rs n0 ncap by (simp add: reserve_def Let_def)
    moreover have "unat n \<le> ?c - (?e + ?d)"
      using True sp by (simp add: word_le_nat_alt)
    ultimately show ?thesis
      using inv by simp
  next
    case False
    then have r1: "r1 = r\<lparr>cached_head := head r\<rparr>"
      and ok: "\<not> CAPACITY cfg - (tail r - head r) < n"
      using rs n0 ncap by (simp_all add: reserve_def Let_def split: if_splits)
    have "unat n \<le> ?c - ?d"
      using ok sp1 by (simp add: word_less_nat_alt)
    then show ?thesis
      using inv r1 by simp
  qed
qed

lemma readable_frame:
  assumes "readable cfg r = (sl, r1)"
  shows "head r1 = head r" "tail r1 = tail r" "cached_head r1 = cached_head r"
    "buffer r1 = buffer r" "cached_tail r1 = cached_tail r \<or> cached_tail r1 = tail r"
  using assms by (auto simp: readable_def Let_def split: if_splits)

lemma readable_slice:
  assumes b: "ring_bits cfg < 64"
    and rd: "readable cfg r = (Some sl, r1)"
  shows "span_data sl = head r AND MASK cfg"
    "unat (span_size sl) \<le> unat (cached_tail r1 - head r)"
    "unat (span_data sl) + unat (span_size sl) \<le> 2 ^ ring_bits cfg"
proof -
  have sl: "sl = \<lparr>span_data = head r AND MASK cfg,
      span_size = min (cached_tail r1 - head r) (CAPACITY cfg - (head r AND MASK cfg))\<rparr>"
    using rd by (auto simp: readable_def Let_def split: if_splits)
  have "unat (head r AND MASK cfg) \<le> 2 ^ ring_bits cfg"
    using slot_less [of "head r" cfg] by simp
  then have sz: "unat (span_size sl) =
      min (unat (cached_tail r1 - head r)) (2 ^ ring_bits cfg - unat (head r AND MASK cfg))"
    by (simp add: sl unat_min unat_cap_minus [OF b])
  show "span_data sl = head r AND MASK cfg"
    by (simp add: sl)
  show "unat (span_size sl) \<le> unat (cached_tail r1 - head r)"
    by (simp add: sz)
  show "unat (span_data sl) + unat (span_size sl) \<le> 2 ^ ring_bits cfg"
    using sz slot_less [of "head r" cfg] by (simp add: sl)
qed


lemma session_invI:
  assumes "ring_bits cfg < 64"
    and "length (buffer (the_ring s)) = 2 ^ ring_bits cfg"
    and "unat (head (the_ring s) - cached_head (the_ring s)) +
         unat (tail (the_ring s) - head (the_ring s)) \<le> 2 ^ ring_bits cfg"
    and "unat (cached_tail (the_ring s) - head (the_ring s)) \<le>
         unat (tail (the_ring s) - head (the_ring s))"
    and "\<And>res. pending s = Some res \<Longrightarrow>
         span_data (slice res) = tail (the_ring s) AND MASK cfg \<and>
         unat (span_size (slice res)) + unat (head (the_ring s) - cached_head (the_ring s)) +
           unat (tail (the_ring s) - head (the_ring s)) \<le> 2 ^ ring_bits cfg \<and>
         unat (span_data (slice res)) + unat (span_size (slice res)) \<le> 2 ^ ring_bits cfg"
    and "\<And>sl. view s = Some sl \<Longrightarrow>
         span_data sl = head (the_ring s) AND MASK cfg \<and>
         unat (span_size sl) \<le> unat (cached_tail (the_ring s) - head (the_ring s)) \<and>
         unat (span_data sl) + unat (span_size sl) \<le> 2 ^ ring_bits cfg"
    and "sent s = received s @ contents cfg (the_ring s)"
  shows "session_inv cfg s"
proof -
  have "case pending s of None \<Rightarrow> True
    | Some res \<Rightarrow>
        span_data (slice res) = tail (the_ring s) AND MASK cfg \<and>
        unat (span_size (slice res)) + unat (head (the_ring s) - cached_head (the_ring s)) +
          unat (tail (the_ring s) - head (the_ring s)) \<le> 2 ^ ring_bits cfg \<and>
        unat (span_data (slice res)) + unat (span_size (slice res)) \<le> 2 ^ ring_bits cfg"
    using assms(5) by (cases "pending s") auto
  moreover have "case view s of None \<Rightarrow> True
    | Some sl \<Rightarrow>
        span_data sl = head (the_ring s) AND MASK cfg \<and>
        unat (span_size sl) \<le> unat (cached_tail (the_ring s) - head (the_ring s)) \<and>
        unat (span_data sl) + unat (span_size sl) \<le> 2 ^ ring_bits cfg"
    using assms(6) by (cases "view s") auto
  ultimately show ?thesis
    using assms(1-4,7) by (simp add: session_inv_def Let_def)
qed

lemma session_invD:
  assumes "session_inv cfg s"
  shows "ring_bits cfg < 64"
    and "length (buffer (the_ring s)) = 2 ^ ring_bits cfg"
    and "unat (head (the_ring s) - cached_head (the_ring s)) +
         unat (tail (the_ring s) - head (the_ring s)) \<le> 2 ^ ring_bits cfg"
    and "unat (cached_tail (the_ring s) - head (the_ring s)) \<le>
         unat (tail (the_ring s) - head (the_ring s))"
    and "sent s = received s @ contents cfg (the_ring s)"
  using assms by (simp_all add: session_inv_def Let_def)

lemma session_inv_pending:
  assumes "session_inv cfg s" "pending s = Some res"
  shows "span_data (slice res) = tail (the_ring s) AND MASK cfg"
    and "unat (span_size (slice res)) + unat (head (the_ring s) - cached_head (the_ring s)) +
           unat (tail (the_ring s) - head (the_ring s)) \<le> 2 ^ ring_bits cfg"
    and "unat (span_data (slice res)) + unat (span_size (slice res)) \<le> 2 ^ ring_bits cfg"
proof -
  have "case pending s of None \<Rightarrow> True
    | Some res \<Rightarrow>
        span_data (slice res) = tail (the_ring s) AND MASK cfg \<and>
        unat (span_size (slice res)) + unat (head (the_ring s) - cached_head (the_ring s)) +
          unat (tail (the_ring s) - head (the_ring s)) \<le> 2 ^ ring_bits cfg \<and>
        unat (span_data (slice res)) + unat (span_size (slice res)) \<le> 2 ^ ring_bits cfg"
    using assms(1) by (simp add: session_inv_def Let_def)
  then show "span_data (slice res) = tail (the_ring s) AND MASK cfg"
    and "unat (span_size (slice res)) + unat (head (the_ring s) - cached_head (the_ring s)) +
           unat (tail (the_ring s) - head (the_ring s)) \<le> 2 ^ ring_bits cfg"
    and "unat (span_data (slice res)) + unat (span_size (slice res)) \<le> 2 ^ ring_bits cfg"
    by (auto simp: assms(2))
qed

lemma session_inv_view:
  assumes "session_inv cfg s" "view s = Some sl"
  shows "span_data sl = head (the_ring s) AND MASK cfg"
    and "unat (span_size sl) \<le> unat (cached_tail (the_ring s) - head (the_ring s))"
    and "unat (span_data sl) + unat (span_size sl) \<le> 2 ^ ring_bits cfg"
proof -
  have "case view s of None \<Rightarrow> True
    | Some sl \<Rightarrow>
        span_data sl = head (the_ring s) AND MASK cfg \<and>
        unat (span_size sl) \<le> unat (cached_tail (the_ring s) - head (the_ring s)) \<and>
        unat (span_data sl) + unat (span_size sl) \<le> 2 ^ ring_bits cfg"
    using assms(1) by (simp add: session_inv_def Let_def)
  then show "span_data sl = head (the_ring s) AND MASK cfg"
    and "unat (span_size sl) \<le> unat (cached_tail (the_ring s) - head (the_ring s))"
    and "unat (span_data sl) + unat (span_size sl) \<le> 2 ^ ring_bits cfg"
    by (auto simp: assms(2))
qed

lemma contents_frame:
  assumes "ring_bits cfg < 64" "head r' = head r" "tail r' = tail r" "buffer r' = buffer r"
  shows "contents cfg r' = contents cfg r"
  using assms by (intro contents_eqI) simp_all

lemma session_inv_new:
  assumes "ring_bits cfg < 64" "length cells = 2 ^ ring_bits cfg"
  shows "session_inv cfg (new_session cells)"
  using assms
  by (intro session_invI)
    (simp_all add: new_session_def Ring_def contents_def positions_same)

lemma reserve_step_inv:
  assumes inv: "session_inv cfg s" and none: "pending s = None"
    and rs: "reserve cfg n (the_ring s) = (res, r1)"
  shows "session_inv cfg (s\<lparr>the_ring := r1, pending := res\<rparr>)"
proof -
  let ?r = "the_ring s"
  note b = session_invD(1) [OF inv]
  note fr = reserve_frame [OF rs]
  have e1: "unat (head r1 - cached_head r1) \<le> unat (head ?r - cached_head ?r)"
    using fr(1,5) by auto
  show ?thesis
  proof (rule session_invI)
    show "ring_bits cfg < 64"
      by (rule b)
    show "length (buffer (the_ring (s\<lparr>the_ring := r1, pending := res\<rparr>))) = 2 ^ ring_bits cfg"
      using session_invD(2) [OF inv] fr(4) by simp
    show "unat (head (the_ring (s\<lparr>the_ring := r1, pending := res\<rparr>)) -
            cached_head (the_ring (s\<lparr>the_ring := r1, pending := res\<rparr>))) +
          unat (tail (the_ring (s\<lparr>the_ring := r1, pending := res\<rparr>)) -
            head (the_ring (s\<lparr>the_ring := r1, pending := res\<rparr>))) \<le> 2 ^ ring_bits cfg"
      using session_invD(3) [OF inv] e1 fr(1,2) by simp
    show "unat (cached_tail (the_ring (s\<lparr>the_ring := r1, pending := res\<rparr>)) -
            head (the_ring (s\<lparr>the_ring := r1, pending := res\<rparr>))) \<le>
          unat (tail (the_ring (s\<lparr>the_ring := r1, pending := res\<rparr>)) -
            head (the_ring (s\<lparr>the_ring := r1, pending := res\<rparr>)))"
      using session_invD(4) [OF inv] fr(1,2,3) by simp
    show "sent (s\<lparr>the_ring := r1, pending := res\<rparr>) =
        received (s\<lparr>the_ring := r1, pending := res\<rparr>) @
        contents cfg (the_ring (s\<lparr>the_ring := r1, pending := res\<rparr>))"
      using session_invD(5) [OF inv] contents_frame [OF b fr(1,2,4)] by simp
  next
    fix x
    assume "pending (s\<lparr>the_ring := r1, pending := res\<rparr>) = Some x"
    then have x: "res = Some x"
      by simp
    note sp = reserve_space [OF b session_invD(3) [OF inv] rs [unfolded x]]
    note mk = make_reservation_fields [OF b, of "tail ?r" n]
    have "unat (span_size (slice x)) \<le> unat n"
      and "unat (span_data (slice x)) + unat (span_size (slice x)) \<le> 2 ^ ring_bits cfg"
      using mk slot_less [of "tail ?r" cfg] by (simp_all add: sp(1))
    then show "span_data (slice x) = tail (the_ring (s\<lparr>the_ring := r1, pending := res\<rparr>))
          AND MASK cfg \<and>
        unat (span_size (slice x)) +
          unat (head (the_ring (s\<lparr>the_ring := r1, pending := res\<rparr>)) -
            cached_head (the_ring (s\<lparr>the_ring := r1, pending := res\<rparr>))) +
          unat (tail (the_ring (s\<lparr>the_ring := r1, pending := res\<rparr>)) -
            head (the_ring (s\<lparr>the_ring := r1, pending := res\<rparr>))) \<le> 2 ^ ring_bits cfg \<and>
        unat (span_data (slice x)) + unat (span_size (slice x)) \<le> 2 ^ ring_bits cfg"
      using sp(3) fr(1,2) mk(1) by (simp add: sp(1))
  next
    fix sl
    assume "view (s\<lparr>the_ring := r1, pending := res\<rparr>) = Some sl"
    then have "view s = Some sl"
      by simp
    from session_inv_view [OF inv this]
    show "span_data sl = head (the_ring (s\<lparr>the_ring := r1, pending := res\<rparr>)) AND MASK cfg \<and>
        unat (span_size sl) \<le>
          unat (cached_tail (the_ring (s\<lparr>the_ring := r1, pending := res\<rparr>)) -
            head (the_ring (s\<lparr>the_ring := r1, pending := res\<rparr>))) \<and>
        unat (span_data sl) + unat (span_size sl) \<le> 2 ^ ring_bits cfg"
      using fr(1,3) by simp
  qed
qed


lemma free_cell_not_content:
  assumes b: "ring_bits cfg < 64"
    and fit: "l + unat (tail r - head r) \<le> 2 ^ ring_bits cfg"
    and inb: "unat (tail r AND MASK cfg) + l \<le> 2 ^ ring_bits cfg"
    and i: "i < unat (tail r - head r)" and j: "j < l"
  shows "(unat (head r AND MASK cfg) + i) mod 2 ^ ring_bits cfg \<noteq> unat (tail r AND MASK cfg) + j"
proof -
  let ?c = "(2::nat) ^ ring_bits cfg"
  let ?d = "unat (tail r - head r)"
  let ?sh = "unat (head r AND MASK cfg)"
  have "(?sh + (?d + j)) mod ?c = ((?sh + ?d) mod ?c + j) mod ?c"
    by (simp add: mod_add_left_eq add.assoc)
  also have "\<dots> = (unat (tail r AND MASK cfg) + j) mod ?c"
    by (simp only: slot_tail [OF b])
  also have "\<dots> = unat (tail r AND MASK cfg) + j"
    using inb j by simp
  finally have "(?sh + (?d + j)) mod ?c = unat (tail r AND MASK cfg) + j" .
  moreover have "(?sh + i) mod ?c \<noteq> (?sh + (?d + j)) mod ?c"
    using i j fit by (intro mod_offset_neq) simp_all
  ultimately show ?thesis
    by simp
qed

lemma write_step_inv:
  assumes inv: "session_inv cfg s" and pend: "pending s = Some res"
    and i: "i < span_size (slice res)"
  shows "session_inv cfg (s\<lparr>the_ring := (the_ring s)\<lparr>buffer :=
     (buffer (the_ring s))[unat (span_data (slice res)) + unat i := v]\<rparr>\<rparr>)"
proof -
  let ?r = "the_ring s"
  define r1 where "r1 = ?r\<lparr>buffer := (buffer ?r)[unat (span_data (slice res)) + unat i := v]\<rparr>"
  define s1 where "s1 = s\<lparr>the_ring := r1\<rparr>"
  note b = session_invD(1) [OF inv]
  note pd = session_inv_pending [OF inv pend]
  have f: "head r1 = head ?r" "tail r1 = tail ?r" "cached_head r1 = cached_head ?r"
    "cached_tail r1 = cached_tail ?r" "length (buffer r1) = length (buffer ?r)"
    by (simp_all add: r1_def)
  have s1: "the_ring s1 = r1" "pending s1 = pending s" "view s1 = view s" "sent s1 = sent s"
    "received s1 = received s"
    by (simp_all add: s1_def)
  have iu: "unat i < unat (span_size (slice res))"
    using i by (simp add: word_less_nat_alt)
  have cont: "contents cfg r1 = contents cfg ?r"
  proof (rule contents_eqI [OF b f(1) f(2)])
    fix k
    assume k: "k < unat (tail ?r - head ?r)"
    have "(unat (head ?r AND MASK cfg) + k) mod 2 ^ ring_bits cfg \<noteq>
        unat (tail ?r AND MASK cfg) + unat i"
      using pd iu k by (intro free_cell_not_content [OF b, of "unat (span_size (slice res))"])
        simp_all
    then show "buffer r1 ! ((unat (head ?r AND MASK cfg) + k) mod 2 ^ ring_bits cfg) =
        buffer ?r ! ((unat (head ?r AND MASK cfg) + k) mod 2 ^ ring_bits cfg)"
      by (simp add: r1_def pd(1))
  qed
  have "session_inv cfg s1"
  proof (rule session_invI)
    show "ring_bits cfg < 64"
      by (rule b)
    show "length (buffer (the_ring s1)) = 2 ^ ring_bits cfg"
      using session_invD(2) [OF inv] by (simp add: s1 f)
    show "unat (head (the_ring s1) - cached_head (the_ring s1)) +
        unat (tail (the_ring s1) - head (the_ring s1)) \<le> 2 ^ ring_bits cfg"
      using session_invD(3) [OF inv] by (simp add: s1 f)
    show "unat (cached_tail (the_ring s1) - head (the_ring s1)) \<le>
        unat (tail (the_ring s1) - head (the_ring s1))"
      using session_invD(4) [OF inv] by (simp add: s1 f)
    show "sent s1 = received s1 @ contents cfg (the_ring s1)"
      using session_invD(5) [OF inv] by (simp add: s1 cont)
  next
    fix x
    assume "pending s1 = Some x"
    then have "pending s = Some x"
      by (simp add: s1)
    from session_inv_pending [OF inv this]
    show "span_data (slice x) = tail (the_ring s1) AND MASK cfg \<and>
        unat (span_size (slice x)) + unat (head (the_ring s1) - cached_head (the_ring s1)) +
          unat (tail (the_ring s1) - head (the_ring s1)) \<le> 2 ^ ring_bits cfg \<and>
        unat (span_data (slice x)) + unat (span_size (slice x)) \<le> 2 ^ ring_bits cfg"
      by (simp add: s1 f)
  next
    fix sl
    assume "view s1 = Some sl"
    then have "view s = Some sl"
      by (simp add: s1)
    from session_inv_view [OF inv this]
    show "span_data sl = head (the_ring s1) AND MASK cfg \<and>
        unat (span_size sl) \<le> unat (cached_tail (the_ring s1) - head (the_ring s1)) \<and>
        unat (span_data sl) + unat (span_size sl) \<le> 2 ^ ring_bits cfg"
      by (simp add: s1 f)
  qed
  then show ?thesis
    by (simp add: s1_def r1_def)
qed


lemma publish:
  assumes b: "ring_bits cfg < 64"
    and fit: "unat n + unat (head r - cached_head r) + unat (tail r - head r)
       \<le> 2 ^ ring_bits cfg"
    and inb: "unat (tail r AND MASK cfg) + unat n \<le> 2 ^ ring_bits cfg"
    and f: "head r' = head r" "tail r' = tail r + n"
    and len: "length (buffer r') = 2 ^ ring_bits cfg"
    and agree: "\<And>i. i < unat (tail r - head r) \<Longrightarrow>
       buffer r' ! ((unat (head r AND MASK cfg) + i) mod 2 ^ ring_bits cfg) =
       buffer r ! ((unat (head r AND MASK cfg) + i) mod 2 ^ ring_bits cfg)"
  shows "unat (tail r' - head r') = unat (tail r - head r) + unat n"
    and "contents cfg r' =
       contents cfg r @ take (unat n) (drop (unat (tail r AND MASK cfg)) (buffer r'))"
proof -
  have "unat (tail r - head r) + unat n < 2 ^ 64"
    using fit cap_lt [OF b] by simp
  then show "unat (tail r' - head r') = unat (tail r - head r) + unat n"
    unfolding f by (rule unat_add_diff)
  have t: "tail r' = tail r + of_nat (unat n)"
    by (simp add: f)
  show "contents cfg r' =
       contents cfg r @ take (unat n) (drop (unat (tail r AND MASK cfg)) (buffer r'))"
    using fit by (intro contents_commit [OF b _ inb f(1) t len agree]) simp_all
qed

lemma commit_step_inv:
  assumes inv: "session_inv cfg s" and pend: "pending s = Some res"
  shows "session_inv cfg (s\<lparr>the_ring := commit cfg (span_size (slice res)) (the_ring s),
     pending := None,
     sent := sent s @ span_read (buffer (the_ring s)) (slice res)\<rparr>)"
proof -
  let ?r = "the_ring s"
  let ?n = "span_size (slice res)"
  define r1 where "r1 = commit cfg ?n ?r"
  define s1 where "s1 = s\<lparr>the_ring := r1, pending := None,
     sent := sent s @ span_read (buffer ?r) (slice res)\<rparr>"
  note b = session_invD(1) [OF inv]
  note pd = session_inv_pending [OF inv pend]
  have f: "head r1 = head ?r" "tail r1 = tail ?r + ?n" "cached_head r1 = cached_head ?r"
    "cached_tail r1 = cached_tail ?r" "buffer r1 = buffer ?r"
    by (simp_all add: r1_def)
  have s1: "the_ring s1 = r1" "pending s1 = None" "view s1 = view s"
    "sent s1 = sent s @ span_read (buffer ?r) (slice res)" "received s1 = received s"
    by (simp_all add: s1_def)
  have inb: "unat (tail ?r AND MASK cfg) + unat ?n \<le> 2 ^ ring_bits cfg"
    using pd(3) by (simp add: pd(1))
  have len: "length (buffer r1) = 2 ^ ring_bits cfg"
    using session_invD(2) [OF inv] by (simp add: f)
  note pb = publish [OF b pd(2) inb f(1,2) len, unfolded f(5)]
  have "session_inv cfg s1"
  proof (rule session_invI)
    show "ring_bits cfg < 64"
      by (rule b)
    show "length (buffer (the_ring s1)) = 2 ^ ring_bits cfg"
      using len by (simp add: s1)
    show "unat (head (the_ring s1) - cached_head (the_ring s1)) +
        unat (tail (the_ring s1) - head (the_ring s1)) \<le> 2 ^ ring_bits cfg"
      using pd(2) pb(1) by (simp add: s1 f(1,3))
    show "unat (cached_tail (the_ring s1) - head (the_ring s1)) \<le>
        unat (tail (the_ring s1) - head (the_ring s1))"
      using session_invD(4) [OF inv] pb(1) by (simp add: s1 f(1,4))
    show "sent s1 = received s1 @ contents cfg (the_ring s1)"
      using session_invD(5) [OF inv] pb(2) by (simp add: s1 span_read_def pd(1))
  next
    fix x
    assume "pending s1 = Some x"
    then show "span_data (slice x) = tail (the_ring s1) AND MASK cfg \<and>
        unat (span_size (slice x)) + unat (head (the_ring s1) - cached_head (the_ring s1)) +
          unat (tail (the_ring s1) - head (the_ring s1)) \<le> 2 ^ ring_bits cfg \<and>
        unat (span_data (slice x)) + unat (span_size (slice x)) \<le> 2 ^ ring_bits cfg"
      by (simp add: s1)
  next
    fix sl
    assume "view s1 = Some sl"
    then have "view s = Some sl"
      by (simp add: s1)
    from session_inv_view [OF inv this]
    show "span_data sl = head (the_ring s1) AND MASK cfg \<and>
        unat (span_size sl) \<le> unat (cached_tail (the_ring s1) - head (the_ring s1)) \<and>
        unat (span_data sl) + unat (span_size sl) \<le> 2 ^ ring_bits cfg"
      by (simp add: s1 f)
  qed
  then show ?thesis
    by (simp add: s1_def r1_def)
qed


lemma session_inv_cong:
  assumes "the_ring s1 = the_ring s2" "pending s1 = pending s2" "view s1 = view s2"
    "sent s1 = sent s2" "received s1 = received s2"
  shows "session_inv cfg s1 = session_inv cfg s2"
  using assms by (simp add: session_inv_def)

lemma take_drop_copy_to:
  assumes "i + length xs \<le> length dst"
  shows "take (length xs) (drop i (copy_to xs dst i)) = xs"
  using assms by (intro nth_equalityI) (simp_all add: nth_copy_to)

lemma send_step_inv:
  assumes inv: "session_inv cfg s" and none: "pending s = None"
    and sd: "send cfg items (the_ring s) = (k, r3)"
  shows "session_inv cfg (s\<lparr>the_ring := r3, sent := sent s @ take (unat k) items\<rparr>)"
proof -
  let ?r = "the_ring s"
  let ?n = "of_nat (length items) :: usize"
  let ?c = "(2::nat) ^ ring_bits cfg"
  note b = session_invD(1) [OF inv]
  obtain res r1 where rs: "reserve cfg ?n ?r = (res, r1)"
    by (cases "reserve cfg ?n ?r") auto
  note fr = reserve_frame [OF rs]
  show ?thesis
  proof (cases res)
    case None
    then have "k = 0" "r3 = r1"
      using sd rs by (simp_all add: send_def)
    then have "session_inv cfg (s\<lparr>the_ring := r3, sent := sent s @ take (unat k) items\<rparr>) =
        session_inv cfg (s\<lparr>the_ring := r1, pending := res\<rparr>)"
      using none None by (intro session_inv_cong) simp_all
    then show ?thesis
      using reserve_step_inv [OF inv none rs] by simp
  next
    case (Some x)
    define sz where "sz = span_size (slice x)"
    define idx where "idx = unat (span_data (slice x))"
    define xs where "xs = take (unat sz) items"
    define r2 where "r2 = r1\<lparr>buffer := copy_to xs (buffer r1) idx\<rparr>"
    have k: "k = sz" and r3: "r3 = commit cfg sz r2"
      using sd rs Some by (auto simp: send_def Let_def sz_def idx_def xs_def r2_def)
    note sp = reserve_space [OF b session_invD(3) [OF inv] rs [unfolded Some]]
    note mk = make_reservation_fields [OF b, of "tail ?r" ?n]
    have szn: "unat sz \<le> unat ?n" and inb: "unat (tail ?r AND MASK cfg) + unat sz \<le> ?c"
      and idx: "idx = unat (tail ?r AND MASK cfg)"
      using mk slot_less [of "tail ?r" cfg] by (simp_all add: sp(1) sz_def idx_def)
    have "unat ?n \<le> length items"
      by (rule unat_of_nat_le)
    then have lxs: "length xs = unat sz"
      using szn by (simp add: xs_def)
    have f1: "head r1 = head ?r" "tail r1 = tail ?r" "cached_tail r1 = cached_tail ?r"
      "length (buffer r1) = ?c"
      using fr session_invD(2) [OF inv] by simp_all
    have f3: "head r3 = head r1" "tail r3 = tail r1 + sz" "cached_head r3 = cached_head r1"
      "cached_tail r3 = cached_tail r1" "buffer r3 = copy_to xs (buffer r1) idx"
      by (simp_all add: r3 r2_def)
    have fit: "unat sz + unat (head r1 - cached_head r1) + unat (tail r1 - head r1) \<le> ?c"
      using sp(3) szn by (simp add: f1)
    have inb1: "unat (tail r1 AND MASK cfg) + unat sz \<le> ?c"
      using inb by (simp add: f1)
    have len3: "length (buffer r3) = ?c"
      by (simp add: f3 f1)
    have agree: "buffer r3 ! ((unat (head r1 AND MASK cfg) + i) mod ?c) =
        buffer r1 ! ((unat (head r1 AND MASK cfg) + i) mod ?c)"
      if i: "i < unat (tail r1 - head r1)" for i
    proof -
      let ?k = "(unat (head r1 AND MASK cfg) + i) mod ?c"
      have "\<not> (idx \<le> ?k \<and> ?k < idx + length xs)"
      proof
        assume a: "idx \<le> ?k \<and> ?k < idx + length xs"
        then have "idx \<le> ?k" "?k < idx + unat sz"
          by (simp_all add: lxs)
        then have "?k - idx < unat sz" "?k = unat (tail r1 AND MASK cfg) + (?k - idx)"
          unfolding idx f1 by linarith+
        then show False
          using free_cell_not_content [OF b _ inb1 i, of "?k - idx"] fit by simp
      qed
      moreover have "?k < length (buffer r1)"
        by (simp add: f1)
      ultimately show ?thesis
        unfolding f3 by (simp only: nth_copy_to if_False)
    qed
    note pb = publish [OF b fit inb1 f3(1,2) len3 agree]
    have "take (unat sz) (drop (unat (tail r1 AND MASK cfg)) (buffer r3)) = xs"
      using take_drop_copy_to [of idx xs "buffer r1"] inb lxs by (simp add: f3 f1 idx)
    then have cont: "contents cfg r3 = contents cfg ?r @ xs"
      using pb(2) contents_frame [OF b fr(1,2,4)] by simp
    define s1 where "s1 = s\<lparr>the_ring := r3, sent := sent s @ take (unat k) items\<rparr>"
    have s1: "the_ring s1 = r3" "pending s1 = None" "view s1 = view s"
      "sent s1 = sent s @ xs" "received s1 = received s"
      by (simp_all add: s1_def none k xs_def)
    have "session_inv cfg s1"
    proof (rule session_invI)
      show "ring_bits cfg < 64"
        by (rule b)
      show "length (buffer (the_ring s1)) = ?c"
        using len3 by (simp add: s1)
      show "unat (head (the_ring s1) - cached_head (the_ring s1)) +
          unat (tail (the_ring s1) - head (the_ring s1)) \<le> ?c"
        using fit pb(1) by (simp add: s1 f3(1,3))
      show "unat (cached_tail (the_ring s1) - head (the_ring s1)) \<le>
          unat (tail (the_ring s1) - head (the_ring s1))"
        using session_invD(4) [OF inv] pb(1) by (simp add: s1 f3(1,4) f1)
      show "sent s1 = received s1 @ contents cfg (the_ring s1)"
        using session_invD(5) [OF inv] cont by (simp add: s1)
    next
      fix y
      assume "pending s1 = Some y"
      then show "span_data (slice y) = tail (the_ring s1) AND MASK cfg \<and>
          unat (span_size (slice y)) + unat (head (the_ring s1) - cached_head (the_ring s1)) +
            unat (tail (the_ring s1) - head (the_ring s1)) \<le> ?c \<and>
          unat (span_data (slice y)) + unat (span_size (slice y)) \<le> ?c"
        by (simp add: s1)
    next
      fix sl
      assume "view s1 = Some sl"
      then have "view s = Some sl"
        by (simp add: s1)
      from session_inv_view [OF inv this]
      show "span_data sl = head (the_ring s1) AND MASK cfg \<and>
          unat (span_size sl) \<le> unat (cached_tail (the_ring s1) - head (the_ring s1)) \<and>
          unat (span_data sl) + unat (span_size sl) \<le> ?c"
        by (simp add: s1 f3 f1)
    qed
    then show ?thesis
      by (simp add: s1_def)
  qed
qed


lemma session_inv_ring_cong:
  assumes "head r1 = head (the_ring s)" "tail r1 = tail (the_ring s)"
    "cached_head r1 = cached_head (the_ring s)" "cached_tail r1 = cached_tail (the_ring s)"
    "buffer r1 = buffer (the_ring s)"
  shows "session_inv cfg (s\<lparr>the_ring := r1\<rparr>) = session_inv cfg s"
  using assms by (simp add: session_inv_def contents_def Let_def cong: option.case_cong)

lemma close_step_inv:
  "session_inv cfg s \<Longrightarrow> session_inv cfg (s\<lparr>the_ring := close (the_ring s)\<rparr>)"
  by (subst session_inv_ring_cong) (simp_all add: close_def)

lemma readable_step_inv:
  assumes inv: "session_inv cfg s" and rd: "readable cfg (the_ring s) = (sl, r1)"
  shows "session_inv cfg (s\<lparr>the_ring := r1, view := sl\<rparr>)"
proof -
  let ?r = "the_ring s"
  let ?c = "(2::nat) ^ ring_bits cfg"
  define s1 where "s1 = s\<lparr>the_ring := r1, view := sl\<rparr>"
  note b = session_invD(1) [OF inv]
  note fr = readable_frame [OF rd]
  have s1: "the_ring s1 = r1" "pending s1 = pending s" "view s1 = sl" "sent s1 = sent s"
    "received s1 = received s"
    by (simp_all add: s1_def)
  have a1: "unat (cached_tail r1 - head ?r) \<le> unat (tail ?r - head ?r)"
    using fr(5) session_invD(4) [OF inv] by auto
  have "session_inv cfg s1"
  proof (rule session_invI)
    show "ring_bits cfg < 64"
      by (rule b)
    show "length (buffer (the_ring s1)) = ?c"
      using session_invD(2) [OF inv] by (simp add: s1 fr)
    show "unat (head (the_ring s1) - cached_head (the_ring s1)) +
        unat (tail (the_ring s1) - head (the_ring s1)) \<le> ?c"
      using session_invD(3) [OF inv] by (simp add: s1 fr)
    show "unat (cached_tail (the_ring s1) - head (the_ring s1)) \<le>
        unat (tail (the_ring s1) - head (the_ring s1))"
      using a1 by (simp add: s1 fr(1,2))
    show "sent s1 = received s1 @ contents cfg (the_ring s1)"
      using session_invD(5) [OF inv] contents_frame [OF b fr(1,2,4)] by (simp add: s1)
  next
    fix x
    assume "pending s1 = Some x"
    then have "pending s = Some x"
      by (simp add: s1)
    from session_inv_pending [OF inv this]
    show "span_data (slice x) = tail (the_ring s1) AND MASK cfg \<and>
        unat (span_size (slice x)) + unat (head (the_ring s1) - cached_head (the_ring s1)) +
          unat (tail (the_ring s1) - head (the_ring s1)) \<le> ?c \<and>
        unat (span_data (slice x)) + unat (span_size (slice x)) \<le> ?c"
      by (simp add: s1 fr)
  next
    fix x
    assume "view s1 = Some x"
    then have "sl = Some x"
      by (simp add: s1)
    from readable_slice [OF b rd [unfolded this]]
    show "span_data x = head (the_ring s1) AND MASK cfg \<and>
        unat (span_size x) \<le> unat (cached_tail (the_ring s1) - head (the_ring s1)) \<and>
        unat (span_data x) + unat (span_size x) \<le> ?c"
      by (simp add: s1 fr(1))
  qed
  then show ?thesis
    by (simp add: s1_def)
qed

lemma advance_step_inv:
  assumes inv: "session_inv cfg s" and vw: "view s = Some sl" and n: "n \<le> span_size sl"
  shows "session_inv cfg (s\<lparr>the_ring := advance cfg n (the_ring s), view := None,
     received := received s @ take (unat n) (span_read (buffer (the_ring s)) sl)\<rparr>)"
proof -
  let ?r = "the_ring s"
  let ?c = "(2::nat) ^ ring_bits cfg"
  let ?e = "unat (head ?r - cached_head ?r)"
  let ?d = "unat (tail ?r - head ?r)"
  let ?a = "unat (cached_tail ?r - head ?r)"
  define r1 where "r1 = advance cfg n ?r"
  define s1 where "s1 = s\<lparr>the_ring := r1, view := None,
     received := received s @ take (unat n) (span_read (buffer ?r) sl)\<rparr>"
  note b = session_invD(1) [OF inv]
  note range = session_invD(3) [OF inv]
  note ad = session_invD(4) [OF inv]
  note v = session_inv_view [OF inv vw]
  have m: "unat n \<le> unat (span_size sl)"
    using n by (simp add: word_le_nat_alt)
  then have ma: "unat n \<le> ?a" and md: "unat n \<le> ?d"
    using v(2) ad by simp_all
  have f: "head r1 = head ?r + n" "tail r1 = tail ?r" "cached_head r1 = cached_head ?r"
    "cached_tail r1 = cached_tail ?r" "buffer r1 = buffer ?r"
    by (simp_all add: r1_def)
  have e1: "unat (head r1 - cached_head r1) = ?e + unat n"
    unfolding f using range md cap_lt [OF b] by (intro unat_add_diff) simp
  have d1: "unat (tail r1 - head r1) = ?d - unat n"
    unfolding f using md by (rule unat_diff_add)
  have a1: "unat (cached_tail r1 - head r1) = ?a - unat n"
    unfolding f using ma by (rule unat_diff_add)
  have s1: "the_ring s1 = r1" "pending s1 = pending s" "view s1 = None" "sent s1 = sent s"
    "received s1 = received s @ take (unat n) (span_read (buffer ?r) sl)"
    by (simp_all add: s1_def)
  have h: "head r1 = head ?r + of_nat (unat n)"
    by (simp add: f)
  have dle: "?d \<le> ?c"
    using range by simp
  have cont: "contents cfg r1 = drop (unat n) (contents cfg ?r)"
    using md dle h f(2) f(5) by (rule contents_advance [OF b])
  have "take (unat n) (span_read (buffer ?r) sl) =
      take (unat n) (drop (unat (head ?r AND MASK cfg)) (buffer ?r))"
    using m by (simp add: span_read_def v(1) min_absorb1)
  also have "\<dots> = take (unat n) (contents cfg ?r)"
    using md v(3) m session_invD(2) [OF inv] by (intro view_read [OF b]) (simp_all add: v(1))
  finally have rd: "take (unat n) (span_read (buffer ?r) sl) = take (unat n) (contents cfg ?r)" .
  have "session_inv cfg s1"
  proof (rule session_invI)
    show "ring_bits cfg < 64"
      by (rule b)
    show "length (buffer (the_ring s1)) = ?c"
      using session_invD(2) [OF inv] by (simp add: s1 f)
    show "unat (head (the_ring s1) - cached_head (the_ring s1)) +
        unat (tail (the_ring s1) - head (the_ring s1)) \<le> ?c"
      using range md by (simp add: s1 e1 d1)
    show "unat (cached_tail (the_ring s1) - head (the_ring s1)) \<le>
        unat (tail (the_ring s1) - head (the_ring s1))"
      using ad by (simp add: s1 a1 d1)
    show "sent s1 = received s1 @ contents cfg (the_ring s1)"
      using session_invD(5) [OF inv] by (simp add: s1 cont rd)
  next
    fix x
    assume "pending s1 = Some x"
    then have "pending s = Some x"
      by (simp add: s1)
    from session_inv_pending [OF inv this]
    show "span_data (slice x) = tail (the_ring s1) AND MASK cfg \<and>
        unat (span_size (slice x)) + unat (head (the_ring s1) - cached_head (the_ring s1)) +
          unat (tail (the_ring s1) - head (the_ring s1)) \<le> ?c \<and>
        unat (span_data (slice x)) + unat (span_size (slice x)) \<le> ?c"
      using md d1 by (simp add: s1 e1 f(2))
  next
    fix x
    assume "view s1 = Some x"
    then show "span_data x = head (the_ring s1) AND MASK cfg \<and>
        unat (span_size x) \<le> unat (cached_tail (the_ring s1) - head (the_ring s1)) \<and>
        unat (span_data x) + unat (span_size x) \<le> ?c"
      by (simp add: s1)
  qed
  then show ?thesis
    by (simp add: s1_def r1_def)
qed


lemma recv_step_inv:
  assumes inv: "session_inv cfg s" and rc: "recv cfg out (the_ring s) = (k, out1, r3)"
  shows "session_inv cfg (s\<lparr>the_ring := r3, view := None,
     received := received s @ take (unat k) out1\<rparr>)"
proof -
  let ?r = "the_ring s"
  obtain sl r1 where rd: "readable cfg ?r = (sl, r1)"
    by (cases "readable cfg ?r") auto
  note inv1 = readable_step_inv [OF inv rd]
  show ?thesis
  proof (cases sl)
    case None
    then have "k = 0" "r3 = r1"
      using rc rd by (simp_all add: recv_def)
    then have "session_inv cfg (s\<lparr>the_ring := r3, view := None,
          received := received s @ take (unat k) out1\<rparr>) =
        session_inv cfg (s\<lparr>the_ring := r1, view := sl\<rparr>)"
      using None by (intro session_inv_cong) simp_all
    then show ?thesis
      using inv1 by simp
  next
    case (Some x)
    define n where "n = min (span_size x) (of_nat (length out))"
    define xs where "xs = take (unat n) (span_read (buffer r1) x)"
    have k: "k = n" and r3: "r3 = advance cfg n r1" and out1: "out1 = copy_to xs out 0"
      using rc rd Some by (auto simp: recv_def Let_def n_def xs_def)
    define s1 where "s1 = s\<lparr>the_ring := r1, view := sl\<rparr>"
    have s1: "the_ring s1 = r1" "view s1 = Some x" "received s1 = received s"
      "pending s1 = pending s" "sent s1 = sent s"
      by (simp_all add: s1_def Some)
    have i1: "session_inv cfg s1"
      using inv1 by (simp add: s1_def)
    have nle: "n \<le> span_size x"
      by (simp add: n_def)
    note v = session_inv_view [OF i1 s1(2)]
    have "length (span_read (buffer r1) x) = unat (span_size x)"
      using v(3) session_invD(2) [OF i1] by (simp add: span_read_def s1(1))
    moreover have un: "unat n \<le> unat (span_size x)" "unat n \<le> length out"
      using unat_of_nat_le [of "length out"] by (simp_all add: n_def unat_min)
    ultimately have lxs: "length xs = unat n"
      by (simp add: xs_def)
    have "take (length xs) (copy_to xs out 0) = xs"
      using un(2) lxs by (intro take_copy_to_0) simp
    then have t2: "take (unat n) (copy_to xs out 0) = xs"
      by (simp only: lxs)
    have tk: "take (unat k) out1 = take (unat n) (span_read (buffer r1) x)"
      unfolding k out1 by (subst t2) (rule xs_def)
    have "session_inv cfg (s\<lparr>the_ring := r3, view := None,
          received := received s @ take (unat k) out1\<rparr>) =
        session_inv cfg (s1\<lparr>the_ring := advance cfg n (the_ring s1), view := None,
          received := received s1 @ take (unat n) (span_read (buffer (the_ring s1)) x)\<rparr>)"
      by (intro session_inv_cong) (simp_all add: s1 r3 tk)
    then show ?thesis
      using advance_step_inv [OF i1 s1(2) nle] by simp
  qed
qed

lemma ring_step_inv:
  assumes inv: "session_inv cfg s" and st: "ring_step cfg c s = Some s1"
  shows "session_inv cfg s1"
proof (cases c)
  case (Reserve n)
  obtain res r1 where rs: "reserve cfg n (the_ring s) = (res, r1)"
    by (cases "reserve cfg n (the_ring s)") auto
  have "pending s = None" and "s1 = s\<lparr>the_ring := r1, pending := res\<rparr>"
    using st Reserve rs by (auto split: option.splits)
  then show ?thesis
    using reserve_step_inv [OF inv _ rs] by simp
next
  case (Write i v)
  then obtain res where "pending s = Some res" "i < span_size (slice res)"
    and "s1 = s\<lparr>the_ring := (the_ring s)\<lparr>buffer :=
       (buffer (the_ring s))[unat (span_data (slice res)) + unat i := v]\<rparr>\<rparr>"
    using st by (auto split: option.splits if_splits)
  then show ?thesis
    using write_step_inv [OF inv] by simp
next
  case Commit
  then obtain res where "pending s = Some res"
    and "s1 = s\<lparr>the_ring := commit cfg (span_size (slice res)) (the_ring s),
       pending := None, sent := sent s @ span_read (buffer (the_ring s)) (slice res)\<rparr>"
    using st by (auto split: option.splits)
  then show ?thesis
    using commit_step_inv [OF inv] by simp
next
  case (SendItems items)
  obtain k r3 where sd: "send cfg items (the_ring s) = (k, r3)"
    by (cases "send cfg items (the_ring s)") auto
  have "pending s = None"
    and "s1 = s\<lparr>the_ring := r3, sent := sent s @ take (unat k) items\<rparr>"
    using st SendItems sd by (auto split: option.splits)
  then show ?thesis
    using send_step_inv [OF inv _ sd] by simp
next
  case Readable
  obtain sl r1 where rd: "readable cfg (the_ring s) = (sl, r1)"
    by (cases "readable cfg (the_ring s)") auto
  have "s1 = s\<lparr>the_ring := r1, view := sl\<rparr>"
    using st Readable rd by simp
  then show ?thesis
    using readable_step_inv [OF inv rd] by simp
next
  case (Advance n)
  then obtain sl where "view s = Some sl" "n \<le> span_size sl"
    and "s1 = s\<lparr>the_ring := advance cfg n (the_ring s), view := None,
       received := received s @ take (unat n) (span_read (buffer (the_ring s)) sl)\<rparr>"
    using st by (auto split: option.splits if_splits)
  then show ?thesis
    using advance_step_inv [OF inv] by simp
next
  case (RecvInto out)
  obtain k out1 r3 where rc: "recv cfg out (the_ring s) = (k, out1, r3)"
    by (cases "recv cfg out (the_ring s)") auto
  have "s1 = s\<lparr>the_ring := r3, view := None, received := received s @ take (unat k) out1\<rparr>"
    using st RecvInto rc by simp
  then show ?thesis
    using recv_step_inv [OF inv rc] by simp
next
  case CloseRing
  then have "s1 = s\<lparr>the_ring := close (the_ring s)\<rparr>"
    using st by simp
  then show ?thesis
    using close_step_inv [OF inv] by simp
qed

lemma ring_calls_inv:
  "session_inv cfg s \<Longrightarrow> ring_calls cfg cs s = Some s1 \<Longrightarrow> session_inv cfg s1"
proof (induction cs arbitrary: s)
  case Nil
  then show ?case
    by simp
next
  case (Cons c cs)
  then show ?case
    by (auto split: option.splits dest: ring_step_inv)
qed

text \<open>
  Claim C2. On a fresh ring (\<open>ring_bits < 64\<close>, a buffer of \<open>CAPACITY\<close> cells), after any
  sequence of producer calls (\<open>reserve\<close>, writes into the reserved slice, \<open>commit\<close> of the
  slice length, \<open>send\<close>) interleaved in any order with consumer calls (\<open>readable\<close>,
  \<open>advance\<close> by at most the slice length, \<open>recv\<close>) and \<open>close\<close>, each within its
  precondition: the values committed so far are the values consumed so far followed by
  the cells from head to tail. So the consumer has read, in order, exactly the first
  values committed, as many as it has consumed; when it has consumed as many as were
  committed, it has read exactly the committed sequence. The positions are 64-bit and
  may wrap around.
\<close>

theorem ring_fifo:
  assumes "ring_bits cfg < 64" and "length cells = 2 ^ ring_bits cfg"
    and "ring_calls cfg cs (new_session cells) = Some s"
  shows "sent s = received s @ contents cfg (the_ring s) \<and>
     received s = take (length (received s)) (sent s) \<and>
     (length (received s) = length (sent s) \<longrightarrow> received s = sent s)"
proof -
  have "session_inv cfg s"
    using session_inv_new [OF assms(1,2)] assms(3) by (rule ring_calls_inv)
  then have "sent s = received s @ contents cfg (the_ring s)"
    by (rule session_invD(5))
  then show ?thesis
    by simp
qed

theorem ring_fifo_witness:
  "ring_bits tiny_cfg < 64 \<and>
   length [0, 0, 0, 0 :: nat] = 2 ^ ring_bits tiny_cfg \<and>
   ring_calls tiny_cfg interleaving (new_session [0, 0, 0, 0]) \<noteq> None \<and>
   sent (the (ring_calls tiny_cfg interleaving (new_session [0, 0, 0, 0]))) =
     [1, 2, 3, 4, 7, 8, 9, 10] \<and>
   received (the (ring_calls tiny_cfg interleaving (new_session [0, 0, 0, 0]))) =
     [1, 2, 3, 4, 7, 8, 9] \<and>
   received (the (ring_calls tiny_cfg interleaving (new_session [0, 0, 0, 0]))) =
     take (length (received (the (ring_calls tiny_cfg interleaving (new_session [0, 0, 0, 0])))))
       (sent (the (ring_calls tiny_cfg interleaving (new_session [0, 0, 0, 0]))))"
proof -
  have b: "ring_bits tiny_cfg < 64"
    by (simp add: tiny_cfg_def)
  have l: "length [0, 0, 0, 0 :: nat] = 2 ^ ring_bits tiny_cfg"
    by (simp add: tiny_cfg_def)
  have ne: "ring_calls tiny_cfg interleaving (new_session [0, 0, 0, 0]) \<noteq> None"
    by code_simp
  then obtain s where
    e: "ring_calls tiny_cfg interleaving (new_session [0, 0, 0, 0]) = Some s"
    by auto
  have snt: "sent (the (ring_calls tiny_cfg interleaving (new_session [0, 0, 0, 0]))) =
     [1, 2, 3, 4, 7, 8, 9, 10]"
    by code_simp
  have rcv: "received (the (ring_calls tiny_cfg interleaving (new_session [0, 0, 0, 0]))) =
     [1, 2, 3, 4, 7, 8, 9]"
    by code_simp
  have "received s = take (length (received s)) (sent s)"
    using ring_fifo [OF b l e] by (rule conjunct2 [THEN conjunct1])
  then have "received (the (ring_calls tiny_cfg interleaving (new_session [0, 0, 0, 0]))) =
     take (length (received (the (ring_calls tiny_cfg interleaving (new_session [0, 0, 0, 0])))))
       (sent (the (ring_calls tiny_cfg interleaving (new_session [0, 0, 0, 0]))))"
    by (simp only: e option.sel)
  then show ?thesis
    using b l ne snt rcv by (intro conjI)
qed

end
